theory Spec2Isabelle
  imports Complex_Main "HOL-Library.Sublist"
begin

section \<open>Membership Manager: statement parser and membership classifier\<close>

text \<open>
  A shallow embedding of \<^verbatim>\<open>src/bank_parser.py\<close> and \<^verbatim>\<open>src/llm_classifier.py\<close>.

  Conventions of the embedding.
  \<^item> A Python \<^verbatim>\<open>str\<close> is an Isabelle \<open>string\<close> holding ASCII text. On ASCII the
    Python operations used by the code (\<^verbatim>\<open>upper\<close>, \<^verbatim>\<open>lower\<close>, \<^verbatim>\<open>strip\<close>, \<^verbatim>\<open>split\<close>, the
    regular-expression classes \<^verbatim>\<open>\d\<close> and \<^verbatim>\<open>\s\<close>) are the functions below. The accented
    capitals of the classifier's character class are outside ASCII, so the class is A-Z here.
    The euro sign, the one character outside ASCII that the amount handling meets, is
    written as its three UTF-8 bytes.
  \<^item> A Python \<^verbatim>\<open>float\<close> is the rational number it denotes (\<open>rat\<close>). Every
    arithmetic operation of the code on floats gives the exact result rounded to 53
    significant bits, to nearest, ties to even (\<open>fl\<close> below), as binary64 does. The
    exponent range is not bounded: there is no overflow, no subnormal number, no NaN and no
    infinity.
  \<^item> A \<^verbatim>\<open>datetime\<close> is an \<open>int\<close>, the number of microseconds since a fixed origin.
  \<^item> A transaction \<^verbatim>\<open>dict\<close> is a record whose optional keys are \<open>option\<close> fields
    (\<open>None\<close>: the key is absent). Records are passed by value: the list positions are
    distinct objects, as they are when a parser builds the list.
  \<^item> Library functions outside the repository (\<^verbatim>\<open>float\<close> on strings, \<^verbatim>\<open>sum\<close> on
    a list of floats, \<^verbatim>\<open>json.loads\<close>, \<^verbatim>\<open>dateutil.parser.parse\<close>, the chat-completion
    client) are parameters of the functions that call them; \<open>None\<close> stands for a raised
    exception.
  \<^item> An exception that leaves a function is the \<open>Inl\<close> branch of its result.
\<close>

subsection \<open>Python strings\<close>

definition isdigit :: "char \<Rightarrow> bool" where
  "isdigit c = (c \<in> set ''0123456789'')"

text \<open>\<^verbatim>\<open>str.isspace\<close> on ASCII: tab, LF, VT, FF, CR, the separators 0x1C-0x1F and space.\<close>

definition isspace :: "char \<Rightarrow> bool" where
  "isspace c = (c \<in> set [CHR 0x09, CHR 0x0A, CHR 0x0B, CHR 0x0C, CHR 0x0D,
                            CHR 0x1C, CHR 0x1D, CHR 0x1E, CHR 0x1F, CHR '' ''])"

definition isupper_az :: "char \<Rightarrow> bool" where
  "isupper_az c = (c \<in> set ''ABCDEFGHIJKLMNOPQRSTUVWXYZ'')"

definition upper_char :: "char \<Rightarrow> char" where
  "upper_char c =
     (case map_of (zip ''abcdefghijklmnopqrstuvwxyz'' ''ABCDEFGHIJKLMNOPQRSTUVWXYZ'') c of
        None \<Rightarrow> c | Some u \<Rightarrow> u)"

definition lower_char :: "char \<Rightarrow> char" where
  "lower_char c =
     (case map_of (zip ''ABCDEFGHIJKLMNOPQRSTUVWXYZ'' ''abcdefghijklmnopqrstuvwxyz'') c of
        None \<Rightarrow> c | Some l \<Rightarrow> l)"

definition py_upper :: "string \<Rightarrow> string" where
  "py_upper s = map upper_char s"

definition py_lower :: "string \<Rightarrow> string" where
  "py_lower s = map lower_char s"

text \<open>\<^verbatim>\<open>k in text\<close> on strings: \<open>k\<close> occurs as a contiguous piece of \<open>text\<close>.\<close>

fun py_in :: "string \<Rightarrow> string \<Rightarrow> bool" where
  "py_in k [] = (k = [])"
| "py_in k (c # cs) = (prefix k (c # cs) \<or> py_in k cs)"

definition any_in :: "string list \<Rightarrow> string \<Rightarrow> bool" where
  "any_in ks text = list_ex (\<lambda>k. py_in k text) ks"

definition py_strip :: "string \<Rightarrow> string" where
  "py_strip s = rev (dropWhile isspace (rev (dropWhile isspace s)))"

text \<open>\<^verbatim>\<open>s.split()\<close>: the maximal pieces of \<open>s\<close> free of whitespace, in order.\<close>

function py_split :: "string \<Rightarrow> string list" where
  "py_split [] = []"
| "py_split (c # cs) =
     (if isspace c then py_split cs
      else (c # takeWhile (\<lambda>x. \<not> isspace x) cs)
             # py_split (dropWhile (\<lambda>x. \<not> isspace x) cs))"
  by pat_completeness auto
termination
  by (relation "measure length") (auto simp: le_imp_less_Suc length_dropWhile_le)

fun py_join :: "string \<Rightarrow> string list \<Rightarrow> string" where
  "py_join sep [] = []"
| "py_join sep [w] = w"
| "py_join sep (w # v # ws) = w @ sep @ py_join sep (v # ws)"

text \<open>
  \<^verbatim>\<open>s.replace(old, new)\<close> for a non-empty \<open>old\<close> (the code never passes an empty one):
  occurrences are replaced from the left, without overlap.
\<close>

function py_replace :: "string \<Rightarrow> string \<Rightarrow> string \<Rightarrow> string" where
  "py_replace old new [] = []"
| "py_replace old new (c # cs) =
     (if old \<noteq> [] \<and> prefix old (c # cs)
      then new @ py_replace old new (drop (length old - 1) cs)
      else c # py_replace old new cs)"
  by pat_completeness auto
termination
  by (relation "measure (\<lambda>(old, new, s). length s)") auto

text \<open>
  \<^verbatim>\<open>re.sub(r"\d{4,}", "", s)\<close>: a match starts at the first digit of a maximal run of
  digits and, being greedy, takes the whole run; a run of fewer than four digits has no
  match inside it.
\<close>

function remove_long_digit_runs :: "string \<Rightarrow> string" where
  "remove_long_digit_runs [] = []"
| "remove_long_digit_runs (c # cs) =
     (if isdigit c
      then (if 4 \<le> length (c # takeWhile isdigit cs) then [] else c # takeWhile isdigit cs)
             @ remove_long_digit_runs (dropWhile isdigit cs)
      else c # remove_long_digit_runs cs)"
  by pat_completeness auto
termination
  by (relation "measure length") (auto simp: le_imp_less_Suc length_dropWhile_le)

text \<open>\<^verbatim>\<open>re.sub(r"\s+", " ", s)\<close>: every maximal run of whitespace becomes one space.\<close>

function collapse_ws :: "string \<Rightarrow> string" where
  "collapse_ws [] = []"
| "collapse_ws (c # cs) =
     (if isspace c then CHR '' '' # collapse_ws (dropWhile isspace cs)
      else c # collapse_ws cs)"
  by pat_completeness auto
termination
  by (relation "measure length") (auto simp: le_imp_less_Suc length_dropWhile_le)

text \<open>\<^verbatim>\<open>str(n)\<close> for an integer.\<close>

function show_nat :: "nat \<Rightarrow> string" where
  "show_nat n =
     (if n < 10 then [''0123456789'' ! n]
      else show_nat (n div 10) @ [''0123456789'' ! (n mod 10)])"
  by pat_completeness auto
termination
  by (relation "measure id") auto

declare show_nat.simps [simp del]

definition show_int :: "int \<Rightarrow> string" where
  "show_int i = (if i < 0 then CHR ''-'' # show_nat (nat (- i)) else show_nat (nat i))"

subsection \<open>Floats\<close>

text \<open>\<^verbatim>\<open>n.bit_length()\<close> for a natural number.\<close>

function bit_length :: "nat \<Rightarrow> nat" where
  "bit_length n = (if n = 0 then 0 else Suc (bit_length (n div 2)))"
  by pat_completeness auto
termination
  by (relation "measure id") auto

declare bit_length.simps [simp del]

definition pow2 :: "int \<Rightarrow> rat" where
  "pow2 e = (if 0 \<le> e then 2 ^ nat e else 1 / 2 ^ nat (- e))"

text \<open>The binary exponent of a positive number: the \<open>e\<close> with \<open>2^e \<le> a < 2^(e+1)\<close>.\<close>

definition ilog2 :: "rat \<Rightarrow> int" where
  "ilog2 a =
     (if 1 \<le> a then int (bit_length (nat \<lfloor>a\<rfloor>)) - 1
      else (let k = int (bit_length (nat \<lfloor>1 / a\<rfloor>)) - 1
            in if pow2 (- k) \<le> a then - k else - k - 1))"

text \<open>To the nearest integer, a tie to the even one.\<close>

definition round_half_even :: "rat \<Rightarrow> int" where
  "round_half_even q =
     (let f = \<lfloor>q\<rfloor>; d = q - of_int f
      in if d < 1 / 2 then f else if 1 / 2 < d then f + 1 else if even f then f else f + 1)"

text \<open>
  The float nearest to a number: 53 significant bits, round to nearest, ties to even.
\<close>

definition fl :: "rat \<Rightarrow> rat" where
  "fl q =
     (if q = 0 then 0
      else (let a = \<bar>q\<bar>; e = ilog2 a - 52; m = round_half_even (a / pow2 e)
            in sgn q * of_int m * pow2 e))"

text \<open>
  Float division and multiplication (the code never divides by zero: its divisors are
  12, 3, 6 and the length of a non-empty list).
\<close>

definition fdiv :: "rat \<Rightarrow> rat \<Rightarrow> rat" where
  "fdiv x y = fl (x / y)"

definition fmul :: "rat \<Rightarrow> rat \<Rightarrow> rat" where
  "fmul x y = fl (x * y)"

text \<open>
  \<^verbatim>\<open>round(x, 2)\<close> on a float: the exact value of \<open>x\<close> rounded to two decimals, a tie to
  the even one, and the float nearest to that decimal.
\<close>

definition round2 :: "rat \<Rightarrow> rat" where
  "round2 x = fl (of_int (round_half_even (x * 100)) / 100)"

text \<open>
  \<^verbatim>\<open>sum\<close> on floats is a parameter of the functions that call it (its algorithm changed
  between versions of the interpreter). For the examples: adding from the left, each
  partial sum rounded, which every version returns on lists whose partial sums are floats.
\<close>

definition naive_sum :: "rat list \<Rightarrow> rat" where
  "naive_sum xs = foldl (\<lambda>a x. fl (a + x)) 0 xs"

subsection \<open>Statement parser (\<^verbatim>\<open>bank_parser.py\<close>)\<close>

text \<open>\<^verbatim>\<open>_extract_merchant\<close>.\<close>

definition extract_merchant :: "string \<Rightarrow> string" where
  "extract_merchant description =
     (let desc = py_upper description;
          desc = remove_long_digit_runs desc;
          desc = py_strip (collapse_ws desc);
          words = take 3 (py_split desc)
      in if words \<noteq> [] then py_join '' '' words else take 30 description)"

text \<open>
  \<^verbatim>\<open>_parse_amount\<close>. The argument is a number or a string; \<open>float\<close> is Python's
  \<^verbatim>\<open>float\<close> on strings, \<open>None\<close> for \<^verbatim>\<open>ValueError\<close>.
\<close>

datatype cell = Num rat | Str string

fun parse_amount :: "(string \<Rightarrow> rat option) \<Rightarrow> cell \<Rightarrow> rat" where
  "parse_amount float (Num r) = r"
| "parse_amount float (Str amount_str) =
     (let cleaned = py_strip (py_replace '','' '''' (py_replace ''$'' '''' amount_str))
      in case float cleaned of Some r \<Rightarrow> r | None \<Rightarrow> 0)"

text \<open>
  Python's \<^verbatim>\<open>float\<close> on the plain decimal literals: surrounding whitespace, an optional
  sign, digits with an optional fractional part; the result is the float nearest to the
  decimal. Every other string is a \<^verbatim>\<open>ValueError\<close> here; the exponent, underscore,
  \<^verbatim>\<open>inf\<close> and \<^verbatim>\<open>nan\<close> forms that Python also reads are not covered, so this function is
  used for concrete decimal inputs only.
\<close>

definition digits_value :: "string \<Rightarrow> nat" where
  "digits_value ds = foldl (\<lambda>a c. 10 * a + (of_char c - 48)) 0 ds"

definition unsigned_decimal :: "string \<Rightarrow> rat option" where
  "unsigned_decimal s =
     (let ip = takeWhile isdigit s; rest = dropWhile isdigit s
      in case rest of
           [] \<Rightarrow> if ip = [] then None else Some (of_nat (digits_value ip))
         | d # fp \<Rightarrow>
             if d = CHR ''.'' \<and> list_all isdigit fp \<and> (ip \<noteq> [] \<or> fp \<noteq> [])
             then Some (of_nat (digits_value ip) + of_nat (digits_value fp) / 10 ^ length fp)
             else None)"

definition decimal_float :: "string \<Rightarrow> rat option" where
  "decimal_float s =
     (case py_strip s of
        [] \<Rightarrow> None
      | c # cs \<Rightarrow>
          if c = CHR ''-'' then map_option (\<lambda>r. fl (- r)) (unsigned_decimal cs)
          else if c = CHR ''+'' then map_option fl (unsigned_decimal cs)
          else map_option fl (unsigned_decimal (c # cs)))"

definition euro :: string where
  "euro = [CHR 0xE2, CHR 0x82, CHR 0xAC]"

text \<open>
  \<^verbatim>\<open>_parse_date\<close>: \<open>parse\<close> is \<^verbatim>\<open>dateutil.parser.parse\<close>, \<open>now\<close> the value of
  \<^verbatim>\<open>datetime.now()\<close>.
\<close>

definition parse_date :: "(string \<Rightarrow> int option) \<Rightarrow> int \<Rightarrow> string \<Rightarrow> int" where
  "parse_date parse now date_str = (case parse date_str of Some d \<Rightarrow> d | None \<Rightarrow> now)"

subsection \<open>Python values and transaction records\<close>

text \<open>The values a decoded JSON document and the classifier's own results are made of.\<close>

datatype pyval =
    PNone
  | PBool bool
  | PNum rat
  | PStr string
  | PList "pyval list"
  | PDict "(string \<times> pyval) list"

fun truthy :: "pyval \<Rightarrow> bool" where
  "truthy PNone = False"
| "truthy (PBool b) = b"
| "truthy (PNum r) = (r \<noteq> 0)"
| "truthy (PStr s) = (s \<noteq> [])"
| "truthy (PList xs) = (xs \<noteq> [])"
| "truthy (PDict kv) = (kv \<noteq> [])"

text \<open>
  Dictionary keys: two hashable values are the same key when Python's \<^verbatim>\<open>==\<close> holds, which
  identifies \<^verbatim>\<open>True\<close> with 1 and \<^verbatim>\<open>False\<close> with 0; a list or a dict is unhashable.
\<close>

datatype pykey = KNone | KNum rat | KStr string

fun py_key :: "pyval \<Rightarrow> pykey option" where
  "py_key PNone = Some KNone"
| "py_key (PBool b) = Some (KNum (if b then 1 else 0))"
| "py_key (PNum r) = Some (KNum r)"
| "py_key (PStr s) = Some (KStr s)"
| "py_key (PList xs) = None"
| "py_key (PDict kv) = None"

datatype py_error = IndexError | KeyError | TypeError | AttributeError

record txn =
  date :: "int option"
  description :: "string option"
  amount :: rat
  merchant :: "string option"
  is_membership :: "pyval option"
  membership_type :: "pyval option"
  frequency :: "pyval option"
  category :: "pyval option"
  monthly_cost :: "rat option"
  total_paid :: "rat option"

text \<open>A record as the parsers build it: the classification keys are absent.\<close>

definition raw_txn :: "int option \<Rightarrow> string \<Rightarrow> rat \<Rightarrow> string \<Rightarrow> txn" where
  "raw_txn d desc a m =
     \<lparr>date = d, description = Some desc, amount = a, merchant = Some m,
      is_membership = None, membership_type = None, frequency = None, category = None,
      monthly_cost = None, total_paid = None\<rparr>"

text \<open>\<^verbatim>\<open>t.get("is_membership")\<close> used as a condition.\<close>

definition flagged :: "txn \<Rightarrow> bool" where
  "flagged t = (case is_membership t of None \<Rightarrow> False | Some v \<Rightarrow> truthy v)"

text \<open>
  \<^verbatim>\<open>_parse_table\<close>. A cell is \<open>None\<close> or a string. The loop over the header columns
  fills the keys \<^verbatim>\<open>date\<close>, \<^verbatim>\<open>description\<close> and \<^verbatim>\<open>amount\<close> of a fresh dict, a later column
  overwriting an earlier one of the same kind.
\<close>

definition cell_truthy :: "string option \<Rightarrow> bool" where
  "cell_truthy c = (case c of None \<Rightarrow> False | Some s \<Rightarrow> s \<noteq> [])"

definition table_headers :: "string option list \<Rightarrow> string list" where
  "table_headers row0 =
     map (\<lambda>h. if cell_truthy h then py_lower (the h) else []) row0"

definition table_column ::
  "(string \<Rightarrow> rat option) \<Rightarrow> (string \<Rightarrow> int option) \<Rightarrow> int \<Rightarrow>
   int option \<times> string option \<times> rat option \<Rightarrow> string \<times> string option \<Rightarrow>
   int option \<times> string option \<times> rat option" where
  "table_column float parse now tr hc =
     (case tr of (d, desc, a) \<Rightarrow>
      case hc of (header, c) \<Rightarrow>
        if cell_truthy c then
          (let v = py_strip (the c) in
           if py_in ''date'' header then (Some (parse_date parse now v), desc, a)
           else if any_in [''description'', ''memo'', ''merchant'', ''details''] header
             then (d, Some v, a)
           else if any_in [''amount'', ''debit'', ''credit''] header
             then (d, desc, Some (parse_amount float (Str v)))
           else tr)
        else tr)"

definition table_row ::
  "(string \<Rightarrow> rat option) \<Rightarrow> (string \<Rightarrow> int option) \<Rightarrow> int \<Rightarrow>
   string list \<Rightarrow> string option list \<Rightarrow> txn list" where
  "table_row float parse now headers row =
     (if length row < 2 then []
      else case foldl (table_column float parse now) (None, None, None) (zip headers row) of
             (d, desc, a) \<Rightarrow>
               (case desc of
                  None \<Rightarrow> []
                | Some ds \<Rightarrow>
                    if (case a of None \<Rightarrow> 0 | Some r \<Rightarrow> r) \<noteq> 0
                    then [raw_txn d ds (the a) (extract_merchant ds)]
                    else []))"

definition parse_table ::
  "(string \<Rightarrow> rat option) \<Rightarrow> (string \<Rightarrow> int option) \<Rightarrow> int \<Rightarrow>
   string option list list \<Rightarrow> txn list" where
  "parse_table float parse now table =
     (if length table < 2 then []
      else concat (map (table_row float parse now (table_headers (hd table))) (tl table)))"

subsection \<open>Classifier (\<^verbatim>\<open>llm_classifier.py\<close>): merchant clean-up\<close>

text \<open>
  One attempt to match \<^verbatim>\<open>\d+\s+[A-Z]+\.?\s*\<close> at the start of a string; the result is what
  follows the match. The classes of digits, whitespace, capitals and the full stop are
  disjoint, so every greedy piece takes its maximal run and backtracking finds nothing else.
\<close>

definition match_date_token :: "string \<Rightarrow> string option" where
  "match_date_token s =
     (let ds = takeWhile isdigit s; r1 = dropWhile isdigit s;
          ws = takeWhile isspace r1; r2 = dropWhile isspace r1;
          ls = takeWhile isupper_az r2; r3 = dropWhile isupper_az r2;
          r4 = (case r3 of [] \<Rightarrow> [] | d # r \<Rightarrow> if d = CHR ''.'' then r else r3)
      in if ds \<noteq> [] \<and> ws \<noteq> [] \<and> ls \<noteq> [] then Some (dropWhile isspace r4) else None)"

lemma match_date_token_shorter:
  assumes "match_date_token s = Some r"
  shows "length r < length s"
proof -
  let ?r1 = "dropWhile isdigit s"
  let ?r2 = "dropWhile isspace ?r1"
  let ?r3 = "dropWhile isupper_az ?r2"
  let ?r4 = "case ?r3 of [] \<Rightarrow> [] | d # r \<Rightarrow> if d = CHR ''.'' then r else ?r3"
  from assms have ds: "takeWhile isdigit s \<noteq> []" and r: "r = dropWhile isspace ?r4"
    by (auto simp: match_date_token_def Let_def split: if_splits)
  have "length (takeWhile isdigit s) + length ?r1 = length s"
    by (metis length_append takeWhile_dropWhile_id)
  with ds have 1: "length ?r1 < length s"
    by (cases "takeWhile isdigit s") auto
  have 2: "length ?r3 \<le> length ?r1"
    by (meson length_dropWhile_le order_trans)
  have 3: "length ?r4 \<le> length ?r3"
    by (simp split: list.split)
  have "length r \<le> length ?r4"
    unfolding r by (rule length_dropWhile_le)
  with 1 2 3 show ?thesis by linarith
qed

text \<open>\<^verbatim>\<open>re.sub(date_pattern, "", s)\<close>: the scan resumes where a match ended.\<close>

function sub_date_tokens :: "string \<Rightarrow> string" where
  "sub_date_tokens [] = []"
| "sub_date_tokens (c # cs) =
     (case match_date_token (c # cs) of
        Some r \<Rightarrow> sub_date_tokens r
      | None \<Rightarrow> c # sub_date_tokens cs)"
  by pat_completeness auto
termination
  by (relation "measure length") (auto dest: match_date_token_shorter)

text \<open>\<^verbatim>\<open>re.sub(r"^[A-Z]+\.\s*", "", s)\<close>: at most one match, at the start.\<close>

definition sub_abbrev :: "string \<Rightarrow> string" where
  "sub_abbrev s =
     (case dropWhile isupper_az s of
        [] \<Rightarrow> s
      | d # r \<Rightarrow>
          if takeWhile isupper_az s \<noteq> [] \<and> d = CHR ''.'' then dropWhile isspace r else s)"

definition remove_digits :: "string \<Rightarrow> string" where
  "remove_digits s = filter (\<lambda>c. \<not> isdigit c) s"

text \<open>
  The three substitutions and the \<^verbatim>\<open>strip\<close> that \<^verbatim>\<open>_classify_single\<close> and
  \<^verbatim>\<open>_filter_one_time_payments\<close> both apply to the upper-cased merchant.
\<close>

definition clean_merchant :: "string \<Rightarrow> string" where
  "clean_merchant m =
     py_strip (remove_digits (sub_abbrev (sub_date_tokens m)))"

definition get_str :: "string option \<Rightarrow> string \<Rightarrow> string" where
  "get_str v dflt = (case v of None \<Rightarrow> dflt | Some s \<Rightarrow> s)"

subsection \<open>Rule-based classification\<close>

record verdict =
  v_is_membership :: bool
  v_membership_type :: "string option"
  v_frequency :: "string option"
  v_category :: string

definition membership_keywords :: "string list" where
  "membership_keywords =
     [''SUBSCRIPTION'', ''MEMBERSHIP'', ''MONTHLY'', ''ANNUAL'', ''RECURRING'', ''NETFLIX'',
      ''SPOTIFY'', ''AMAZON PRIME'', ''ADOBE'', ''MICROSOFT 365'', ''MICROSOFT'', ''CURSOR'',
      ''APPLE'', ''GYM'', ''FITNESS'', ''GOLF'', ''TENNIS'', ''YOGI'', ''PILATES'', ''OFFICE'',
      ''SOFTWARE'', ''SaaS'', ''CLOUD'', ''NEWS'', ''TIMES'', ''JOURNAL'', ''MAGAZINE'']"

definition software_keywords :: "string list" where
  "software_keywords =
     [''ADOBE'', ''MICROSOFT'', ''OFFICE'', ''SOFTWARE'', ''SaaS'', ''CURSOR'', ''APPLE'']"

text \<open>
  \<^verbatim>\<open>_classify_single\<close>, in its blocks. The type of a membership is the first bucket
  with a keyword in the text; \<open>skeys\<close> are the keywords of the Software bucket.
\<close>

definition classify_type :: "string list \<Rightarrow> string \<Rightarrow> string" where
  "classify_type skeys text =
     (if any_in [''GYM'', ''FITNESS'', ''GOLF'', ''TENNIS'', ''YOGI'', ''PILATES'', ''SPORT''] text
        then ''Sport''
      else if any_in [''NETFLIX'', ''SPOTIFY'', ''DISNEY'', ''HULU'', ''PRIME VIDEO'',
                      ''STREAMING''] text
        then ''Streaming''
      else if any_in skeys text then ''Software''
      else if any_in [''NEWS'', ''TIMES'', ''JOURNAL'', ''MAGAZINE''] text then ''News''
      else ''Services'')"

text \<open>
  The frequency of a membership. The Streaming bucket sets \<^verbatim>\<open>Monthly\<close> first, and this
  chain, which always assigns, overwrites it.
\<close>

definition classify_frequency :: "string \<Rightarrow> string" where
  "classify_frequency text =
     (if py_in ''MONTHLY'' text \<or> py_in ''MONTH'' text then ''Monthly''
      else if py_in ''YEARLY'' text \<or> py_in ''ANNUAL'' text \<or> py_in ''YEAR'' text
        then ''Yearly''
      else if py_in ''WEEKLY'' text \<or> py_in ''WEEK'' text then ''Weekly''
      else ''Monthly'')"

text \<open>
  The category, from the upper-cased description and the cleaned merchant.
  \<^verbatim>\<open>description.split()[0]\<close> raises \<^verbatim>\<open>IndexError\<close> on a description of whitespace only.
\<close>

definition classify_category :: "string \<Rightarrow> string \<Rightarrow> py_error + string" where
  "classify_category desc merchant_clean =
     (if desc \<noteq> []
      then (if merchant_clean \<noteq> [] then Inr merchant_clean
            else case py_split desc of
                   [] \<Rightarrow> Inl IndexError
                 | w # ws \<Rightarrow> Inr w)
      else Inr (if merchant_clean \<noteq> [] then merchant_clean else ''Unknown''))"

text \<open>
  The function itself, with the membership keywords and the keywords of the Software
  bucket as parameters.
\<close>

definition classify_single_with :: "string list \<Rightarrow> string list \<Rightarrow> txn \<Rightarrow> py_error + verdict" where
  "classify_single_with mkeys skeys t =
     (let description = py_upper (get_str (description t) []);
          merchant = py_upper (get_str (merchant t) []);
          text = description @ '' '' @ merchant;
          is_m = any_in mkeys text;
          merchant_clean = (if merchant \<noteq> [] then clean_merchant merchant else merchant)
      in case classify_category description merchant_clean of
           Inl e \<Rightarrow> Inl e
         | Inr cat \<Rightarrow>
             Inr \<lparr>v_is_membership = is_m,
                  v_membership_type = (if is_m then Some (classify_type skeys text) else None),
                  v_frequency = (if is_m then Some (classify_frequency text) else None),
                  v_category = cat\<rparr>)"

definition classify_single :: "txn \<Rightarrow> py_error + verdict" where
  "classify_single = classify_single_with membership_keywords software_keywords"

text \<open>
  The same classifier with the keyword \<^verbatim>\<open>SaaS\<close> taken out of both lists: the other side of
  the comparison with \<open>classify_single\<close>.
\<close>

definition classify_single_without_saas :: "txn \<Rightarrow> py_error + verdict" where
  "classify_single_without_saas =
     classify_single_with
       [''SUBSCRIPTION'', ''MEMBERSHIP'', ''MONTHLY'', ''ANNUAL'', ''RECURRING'', ''NETFLIX'',
        ''SPOTIFY'', ''AMAZON PRIME'', ''ADOBE'', ''MICROSOFT 365'', ''MICROSOFT'', ''CURSOR'',
        ''APPLE'', ''GYM'', ''FITNESS'', ''GOLF'', ''TENNIS'', ''YOGI'', ''PILATES'', ''OFFICE'',
        ''SOFTWARE'', ''CLOUD'', ''NEWS'', ''TIMES'', ''JOURNAL'', ''MAGAZINE'']
       [''ADOBE'', ''MICROSOFT'', ''OFFICE'', ''SOFTWARE'', ''CURSOR'', ''APPLE'']"

definition opt_str :: "string option \<Rightarrow> pyval" where
  "opt_str v = (case v of None \<Rightarrow> PNone | Some s \<Rightarrow> PStr s)"

text \<open>\<^verbatim>\<open>transaction.update(result)\<close> for a result of \<^verbatim>\<open>_classify_single\<close>.\<close>

definition update_txn :: "txn \<Rightarrow> verdict \<Rightarrow> txn" where
  "update_txn t v =
     t\<lparr>is_membership := Some (PBool (v_is_membership v)),
       membership_type := Some (opt_str (v_membership_type v)),
       frequency := Some (opt_str (v_frequency v)),
       category := Some (PStr (v_category v))\<rparr>"

text \<open>\<^verbatim>\<open>_rule_based_classify\<close>: the first exception ends the loop.\<close>

fun rule_based_classify :: "txn list \<Rightarrow> py_error + txn list" where
  "rule_based_classify [] = Inr []"
| "rule_based_classify (t # ts) =
     (case classify_single t of
        Inl e \<Rightarrow> Inl e
      | Inr v \<Rightarrow>
          (case rule_based_classify ts of
             Inl e \<Rightarrow> Inl e
           | Inr r \<Rightarrow> Inr (update_txn t v # r)))"

subsection \<open>Model-assisted classification of one batch\<close>

text \<open>
  \<^verbatim>\<open>re.search(r"\[.*\]", content, re.DOTALL)\<close>: from the first opening bracket to the last
  closing bracket after it.
\<close>

definition search_array :: "string \<Rightarrow> string option" where
  "search_array content =
     (case dropWhile (\<lambda>c. c \<noteq> CHR ''['') content of
        [] \<Rightarrow> None
      | b # body \<Rightarrow>
          if CHR '']'' \<in> set body
          then Some (b # rev (dropWhile (\<lambda>c. c \<noteq> CHR '']'') (rev body)))
          else None)"

text \<open>
  What the parsing of the response (the two nested \<^verbatim>\<open>try\<close> blocks) ends in: a value
  bound to \<^verbatim>\<open>classifications\<close>, the \<^verbatim>\<open>return\<close> of the rule-based result from the inner
  handler, or an exception that reaches the outer handler.
\<close>

datatype parsed = Classifications pyval | ReturnRuleBased | Raised

definition inner_handler :: "(string \<Rightarrow> pyval option) \<Rightarrow> string \<Rightarrow> parsed" where
  "inner_handler loads content =
     (case search_array content of
        None \<Rightarrow> ReturnRuleBased
      | Some a \<Rightarrow> (case loads a of None \<Rightarrow> Raised | Some v \<Rightarrow> Classifications v))"

definition no_list_branch :: "(string \<Rightarrow> pyval option) \<Rightarrow> string \<Rightarrow> pyval \<Rightarrow> parsed" where
  "no_list_branch loads content result =
     (case search_array content of
        None \<Rightarrow> Classifications (PList [result])
      | Some a \<Rightarrow>
          (case loads a of
             None \<Rightarrow> inner_handler loads content
           | Some v \<Rightarrow> Classifications v))"

definition parse_response :: "(string \<Rightarrow> pyval option) \<Rightarrow> string \<Rightarrow> parsed" where
  "parse_response loads content =
     (case loads content of
        None \<Rightarrow> inner_handler loads content
      | Some result \<Rightarrow>
          (case result of
             PDict kv \<Rightarrow>
               (case map_of kv ''transactions'' of
                  Some v \<Rightarrow> Classifications v
                | None \<Rightarrow> no_list_branch loads content result)
           | PList xs \<Rightarrow> Classifications result
           | _ \<Rightarrow> no_list_branch loads content result))"

text \<open>\<^verbatim>\<open>len(classifications)\<close> and \<^verbatim>\<open>classifications[i]\<close> for \<open>i\<close> below the length.\<close>

fun py_len :: "pyval \<Rightarrow> py_error + nat" where
  "py_len (PList xs) = Inr (length xs)"
| "py_len (PStr s) = Inr (length s)"
| "py_len (PDict kv) = Inr (length kv)"
| "py_len v = Inl TypeError"

fun py_getitem :: "pyval \<Rightarrow> nat \<Rightarrow> py_error + pyval" where
  "py_getitem (PList xs) i = (if i < length xs then Inr (xs ! i) else Inl IndexError)"
| "py_getitem (PStr s) i = (if i < length s then Inr (PStr [s ! i]) else Inl IndexError)"
| "py_getitem (PDict kv) i = Inl KeyError"
| "py_getitem v i = Inl TypeError"

definition dict_get :: "(string \<times> pyval) list \<Rightarrow> string \<Rightarrow> pyval \<Rightarrow> pyval" where
  "dict_get kv k dflt = (case map_of kv k of None \<Rightarrow> dflt | Some v \<Rightarrow> v)"

text \<open>The four assignments of the merge loop; \<^verbatim>\<open>.get\<close> exists on a dict only.\<close>

fun apply_classification :: "pyval \<Rightarrow> txn \<Rightarrow> py_error + txn" where
  "apply_classification (PDict kv) t =
     Inr (t\<lparr>is_membership := Some (dict_get kv ''is_membership'' (PBool False)),
            membership_type := Some (dict_get kv ''membership_type'' PNone),
            frequency := Some (dict_get kv ''frequency'' PNone),
            category := Some (dict_get kv ''category'' (PStr (get_str (merchant t) ''Unknown'')))\<rparr>)"
| "apply_classification v t = Inl AttributeError"

fun merge_loop :: "pyval \<Rightarrow> nat \<Rightarrow> txn list \<Rightarrow> py_error + txn list" where
  "merge_loop cls i [] = Inr []"
| "merge_loop cls i (t # ts) =
     (case py_len cls of
        Inl e \<Rightarrow> Inl e
      | Inr n \<Rightarrow>
          (case (if i < n
                 then (case py_getitem cls i of
                         Inl e \<Rightarrow> Inl e
                       | Inr c \<Rightarrow> apply_classification c t)
                 else (case classify_single t of
                         Inl e \<Rightarrow> Inl e
                       | Inr v \<Rightarrow> Inr (update_txn t v))) of
             Inl e \<Rightarrow> Inl e
           | Inr t' \<Rightarrow>
               (case merge_loop cls (Suc i) ts of
                  Inl e \<Rightarrow> Inl e
                | Inr r \<Rightarrow> Inr (t' # r))))"

text \<open>
  \<^verbatim>\<open>_classify_batch\<close>. \<open>response\<close> is the text the service returned, \<open>None\<close> when the call
  raised. The prompt is built before the \<^verbatim>\<open>try\<close>: a record without a \<^verbatim>\<open>date\<close> key raises
  \<^verbatim>\<open>KeyError\<close> there. The prompt itself only feeds the service and is not modelled. The
  handlers re-run the rule-based classifier on the batch, which overwrites the four keys
  the merge loop may have written.
\<close>

definition classify_batch ::
  "(string \<Rightarrow> pyval option) \<Rightarrow> string option \<Rightarrow> txn list \<Rightarrow> py_error + txn list" where
  "classify_batch loads response transactions =
     (if list_ex (\<lambda>t. date t = None) transactions then Inl KeyError
      else case response of
        None \<Rightarrow> rule_based_classify transactions
      | Some content \<Rightarrow>
          (case parse_response loads content of
             Raised \<Rightarrow> rule_based_classify transactions
           | ReturnRuleBased \<Rightarrow>
               (case rule_based_classify transactions of
                  Inl e \<Rightarrow> rule_based_classify transactions
                | Inr r \<Rightarrow> Inr r)
           | Classifications cls \<Rightarrow>
               (case merge_loop cls 0 transactions of
                  Inl e \<Rightarrow> rule_based_classify transactions
                | Inr r \<Rightarrow> Inr r)))"

text \<open>The slices \<^verbatim>\<open>transactions[i : i + 20]\<close> for \<open>i = 0, 20, 40, ...\<close>\<close>

function batches :: "'a list \<Rightarrow> 'a list list" where
  "batches xs = (if xs = [] then [] else take 20 xs # batches (drop 20 xs))"
  by pat_completeness auto
termination
  by (relation "measure length") auto

declare batches.simps [simp del]

text \<open>The loop over the batches; \<open>service n\<close> is the response to the request for batch \<open>n\<close>.\<close>

fun classify_batches ::
  "(string \<Rightarrow> pyval option) \<Rightarrow> (nat \<Rightarrow> string option) \<Rightarrow> nat \<Rightarrow> txn list list \<Rightarrow>
   py_error + txn list" where
  "classify_batches loads service n [] = Inr []"
| "classify_batches loads service n (b # bs) =
     (case classify_batch loads (service n) b of
        Inl e \<Rightarrow> Inl e
      | Inr cb \<Rightarrow>
          (case classify_batches loads service (Suc n) bs of
             Inl e \<Rightarrow> Inl e
           | Inr r \<Rightarrow> Inr (cb @ r)))"

subsection \<open>Post-processing\<close>

text \<open>
  \<^verbatim>\<open>defaultdict(list)\<close> as an association list in insertion order: appending under a key.
\<close>

fun add_to_group :: "'k \<Rightarrow> 'v \<Rightarrow> ('k \<times> 'v list) list \<Rightarrow> ('k \<times> 'v list) list" where
  "add_to_group k v [] = [(k, [v])]"
| "add_to_group k v ((k', vs) # g) =
     (if k = k' then (k', vs @ [v]) # g else (k', vs) # add_to_group k v g)"

text \<open>
  A grouping loop: \<open>f\<close> gives for an element the key and the value to append, \<open>None\<close> when
  the element is skipped, or the exception that ends the loop.
\<close>

fun group_loop ::
  "('a \<Rightarrow> py_error + ('k \<times> 'v) option) \<Rightarrow> 'a list \<Rightarrow> ('k \<times> 'v list) list \<Rightarrow>
   py_error + ('k \<times> 'v list) list" where
  "group_loop f [] g = Inr g"
| "group_loop f (x # xs) g =
     (case f x of
        Inl e \<Rightarrow> Inl e
      | Inr None \<Rightarrow> group_loop f xs g
      | Inr (Some (k, v)) \<Rightarrow> group_loop f xs (add_to_group k v g))"

text \<open>The grouping key of \<^verbatim>\<open>_filter_one_time_payments\<close>.\<close>

definition merchant_key :: "txn \<Rightarrow> string" where
  "merchant_key t =
     (let merchant_clean = clean_merchant (py_upper (get_str (merchant t) []))
      in if merchant_clean = [] then ''Unknown'' else merchant_clean)"

definition demote :: "txn \<Rightarrow> txn" where
  "demote t = t\<lparr>is_membership := Some (PBool False), membership_type := Some PNone,
                 frequency := Some PNone\<rparr>"

text \<open>
  \<^verbatim>\<open>_filter_one_time_payments\<close>. The groups hold the positions of the records they
  refer to; the second loop writes through them.
\<close>

definition by_merchant :: "txn list \<Rightarrow> (string \<times> nat list) list" where
  "by_merchant transactions =
     foldl (\<lambda>g (i, t). if flagged t then add_to_group (merchant_key t) i g else g) []
       (enumerate 0 transactions)"

definition demote_group :: "txn list \<Rightarrow> string \<times> nat list \<Rightarrow> txn list" where
  "demote_group transactions g =
     (case g of (m, txns) \<Rightarrow>
        if length txns = 1
        then foldl (\<lambda>ts i. ts[i := demote (ts ! i)]) transactions txns
        else transactions)"

definition filter_one_time_payments :: "txn list \<Rightarrow> txn list" where
  "filter_one_time_payments transactions =
     foldl demote_group transactions (by_merchant transactions)"

definition to_monthly :: "pyval \<Rightarrow> rat \<Rightarrow> rat" where
  "to_monthly freq avg_amount =
     (if freq = PStr ''Yearly'' then fdiv avg_amount 12
      else if freq = PStr ''Weekly'' then fmul avg_amount (fl (433 / 100))
      else if freq = PStr ''Quarterly'' then fdiv avg_amount 3
      else if freq = PStr ''Bi-annual'' then fdiv avg_amount 6
      else avg_amount)"

text \<open>
  \<^verbatim>\<open>_add_monthly_costs\<close>. The first loop groups \<open>(amount, frequency)\<close> under
  \<^verbatim>\<open>t.get("category", "Unknown")\<close>; an unhashable category raises \<^verbatim>\<open>TypeError\<close>. The
  second loop visits the groups and writes the two aggregates into every record whose
  \<^verbatim>\<open>t.get("category")\<close> equals the group's key. \<open>fsum\<close> is Python's \<^verbatim>\<open>sum\<close> on floats.
\<close>

definition category_item :: "txn \<Rightarrow> py_error + (pykey \<times> rat \<times> pyval) option" where
  "category_item t =
     (case py_key (case category t of None \<Rightarrow> PStr ''Unknown'' | Some c \<Rightarrow> c) of
        None \<Rightarrow> Inl TypeError
      | Some k \<Rightarrow>
          Inr (Some (k, amount t, (case frequency t of None \<Rightarrow> PStr ''Monthly'' | Some f \<Rightarrow> f))))"

definition category_get :: "txn \<Rightarrow> pykey option" where
  "category_get t = py_key (case category t of None \<Rightarrow> PNone | Some c \<Rightarrow> c)"

definition cost_group ::
  "(rat list \<Rightarrow> rat) \<Rightarrow> txn list \<Rightarrow> pykey \<times> (rat \<times> pyval) list \<Rightarrow> txn list" where
  "cost_group fsum memberships g =
     (case g of (cat, items) \<Rightarrow>
        (case items of
           [] \<Rightarrow> memberships
         | item0 # rest \<Rightarrow>
            (let amounts = map fst items;
                 avg_amount = fdiv (fsum amounts) (of_nat (length amounts));
                 monthly = to_monthly (snd item0) avg_amount
             in map (\<lambda>t. if category_get t = Some cat
                          then t\<lparr>monthly_cost := Some (round2 monthly),
                                 total_paid := Some (fsum amounts)\<rparr>
                          else t) memberships)))"

definition add_monthly_costs :: "(rat list \<Rightarrow> rat) \<Rightarrow> txn list \<Rightarrow> py_error + txn list" where
  "add_monthly_costs fsum memberships =
     (case group_loop category_item memberships [] of
        Inl e \<Rightarrow> Inl e
      | Inr by_category \<Rightarrow> Inr (foldl (cost_group fsum) memberships by_category))"

subsection \<open>The classifier's entry point\<close>

text \<open>
  The first stage of \<^verbatim>\<open>classify_transactions\<close>: \<open>use_ai\<close> says that a client is
  configured and \<^verbatim>\<open>USE_AI_CLASSIFICATION\<close> is set.
\<close>

definition classify_stage ::
  "bool \<Rightarrow> (string \<Rightarrow> pyval option) \<Rightarrow> (nat \<Rightarrow> string option) \<Rightarrow> txn list \<Rightarrow>
   py_error + txn list" where
  "classify_stage use_ai loads service transactions =
     (if \<not> use_ai then rule_based_classify transactions
      else classify_batches loads service 0 (batches transactions))"

definition classify_transactions ::
  "(rat list \<Rightarrow> rat) \<Rightarrow> bool \<Rightarrow> (string \<Rightarrow> pyval option) \<Rightarrow> (nat \<Rightarrow> string option) \<Rightarrow>
   txn list \<Rightarrow> py_error + txn list" where
  "classify_transactions fsum use_ai loads service transactions =
     (case classify_stage use_ai loads service transactions of
        Inl e \<Rightarrow> Inl e
      | Inr classified \<Rightarrow>
          add_monthly_costs fsum (filter flagged (filter_one_time_payments classified)))"

subsection \<open>Frequency analysis\<close>

record stats =
  s_frequency :: string
  avg_interval_days :: rat
  s_count :: nat
  total_amount :: rat
  avg_amount :: rat

definition us_per_day :: int where
  "us_per_day = 86400000000"

text \<open>\<^verbatim>\<open>int(x)\<close> on a float: towards zero.\<close>

definition py_int :: "rat \<Rightarrow> int" where
  "py_int q = (if 0 \<le> q then \<lfloor>q\<rfloor> else \<lceil>q\<rceil>)"

definition cadence :: "rat \<Rightarrow> string" where
  "cadence avg_interval =
     (if 25 \<le> avg_interval \<and> avg_interval \<le> 35 then ''Monthly''
      else if 85 \<le> avg_interval \<and> avg_interval \<le> 95 then ''Quarterly''
      else if 360 \<le> avg_interval \<and> avg_interval \<le> 370 then ''Yearly''
      else if 175 \<le> avg_interval \<and> avg_interval \<le> 185 then ''Bi-annual''
      else if 7 \<le> avg_interval \<and> avg_interval \<le> 9 then ''Weekly''
      else ''Every '' @ show_int (py_int avg_interval) @ '' days'')"

definition payment_item :: "txn \<Rightarrow> py_error + (pykey \<times> int \<times> rat) option" where
  "payment_item t =
     (if flagged t
      then (case py_key (case category t of None \<Rightarrow> PStr ''Unknown'' | Some c \<Rightarrow> c) of
              None \<Rightarrow> Inl TypeError
            | Some k \<Rightarrow>
                (case date t of None \<Rightarrow> Inl KeyError | Some d \<Rightarrow> Inr (Some (k, d, amount t))))
      else Inr None)"

text \<open>The day gaps between consecutive payments of a list sorted by date.\<close>

definition intervals :: "(int \<times> rat) list \<Rightarrow> int list" where
  "intervals payments =
     map (\<lambda>i. (fst (payments ! i) - fst (payments ! (i - 1))) div us_per_day)
       [1 ..< length payments]"

definition analyze_group :: "(rat list \<Rightarrow> rat) \<Rightarrow> (int \<times> rat) list \<Rightarrow> stats option" where
  "analyze_group fsum payments0 =
     (if length payments0 < 2 then None
      else
       (let payments = sort_key fst payments0;
            ivs = intervals payments
        in if ivs = [] then None
           else
            (let avg_interval = fdiv (of_int (sum_list ivs)) (of_nat (length ivs))
             in Some \<lparr>s_frequency = cadence avg_interval,
                      avg_interval_days = avg_interval,
                      s_count = length payments,
                      total_amount = fsum (map snd payments),
                      avg_amount = fdiv (fsum (map snd payments)) (of_nat (length payments))\<rparr>)))"

text \<open>
  \<^verbatim>\<open>analyze_frequency\<close>: the result dict as an association list in insertion order.
  The day gaps are integers and their sum is exact; \<open>fsum\<close> is Python's \<^verbatim>\<open>sum\<close> on the
  amounts.
\<close>

definition analyze_frequency ::
  "(rat list \<Rightarrow> rat) \<Rightarrow> txn list \<Rightarrow> py_error + (pykey \<times> stats) list" where
  "analyze_frequency fsum transactions =
     (case group_loop payment_item transactions [] of
        Inl e \<Rightarrow> Inl e
      | Inr by_category \<Rightarrow>
          Inr (concat (map (\<lambda>(cat, payments).
                 case analyze_group fsum payments of None \<Rightarrow> [] | Some st \<Rightarrow> [(cat, st)])
               by_category)))"

subsection \<open>Predicates used in the statements\<close>

text \<open>
  A description that is not empty and holds whitespace only: the one input on which
  \<^verbatim>\<open>description.split()[0]\<close> can be reached with nothing to index.
\<close>

definition blank_description :: "txn \<Rightarrow> bool" where
  "blank_description t =
     (get_str (description t) [] \<noteq> [] \<and> list_all isspace (get_str (description t) []))"

text \<open>
  A response that is not JSON: \<^verbatim>\<open>json.loads\<close> fails on the text, and on the bracketed
  piece the regular expression finds, if there is one.
\<close>

definition unparseable :: "(string \<Rightarrow> pyval option) \<Rightarrow> string \<Rightarrow> bool" where
  "unparseable loads content =
     (loads content = None \<and>
      (case search_array content of None \<Rightarrow> True | Some a \<Rightarrow> loads a = None))"

text \<open>
  The premise as the specification words it, a text from which no JSON array can be
  parsed: neither the text nor the bracketed piece in it, if there is one, is read by
  \<^verbatim>\<open>json.loads\<close> as a list.
\<close>

definition is_array :: "pyval option \<Rightarrow> bool" where
  "is_array v = (case v of Some (PList xs) \<Rightarrow> True | _ \<Rightarrow> False)"

definition no_array_parsed :: "(string \<Rightarrow> pyval option) \<Rightarrow> string \<Rightarrow> bool" where
  "no_array_parsed loads content =
     (\<not> is_array (loads content) \<and>
      (case search_array content of None \<Rightarrow> True | Some a \<Rightarrow> \<not> is_array (loads a)))"

text \<open>A token of \<^verbatim>\<open>split()\<close>: not empty and free of whitespace.\<close>

definition token :: "string \<Rightarrow> bool" where
  "token w = (w \<noteq> [] \<and> list_all (\<lambda>x. \<not> isspace x) w)"

text \<open>
  The pairs a grouping loop appends, in order, and the groups they build: the loop
  without its exceptions.
\<close>

definition pairs_of :: "('a \<Rightarrow> py_error + ('k \<times> 'v) option) \<Rightarrow> 'a list \<Rightarrow> ('k \<times> 'v) list" where
  "pairs_of f xs =
     List.map_filter (\<lambda>x. case f x of Inl e \<Rightarrow> None | Inr p \<Rightarrow> p) xs"

definition group_pairs ::
  "('k \<times> 'v) list \<Rightarrow> ('k \<times> 'v list) list \<Rightarrow> ('k \<times> 'v list) list" where
  "group_pairs ps g = foldl (\<lambda>g p. add_to_group (fst p) (snd p) g) g ps"

text \<open>The values appended under one key.\<close>

definition values_of :: "'k \<Rightarrow> ('k \<times> 'v) list \<Rightarrow> 'v list" where
  "values_of k ps = map snd (filter (\<lambda>p. fst p = k) ps)"

text \<open>How many membership-flagged records of a list have a given normalised merchant.\<close>

definition key_count :: "string \<Rightarrow> txn list \<Rightarrow> nat" where
  "key_count k ts = length (filter (\<lambda>u. flagged u \<and> merchant_key u = k) ts)"

text \<open>The fields a parser fills: date, description, amount and merchant.\<close>

definition core :: "txn \<Rightarrow> int option \<times> string option \<times> rat \<times> string option" where
  "core t = (date t, description t, amount t, merchant t)"

text \<open>A record without its two aggregates: what \<^verbatim>\<open>_add_monthly_costs\<close> leaves alone.\<close>

definition uncosted :: "txn \<Rightarrow> txn" where
  "uncosted t = t\<lparr>monthly_cost := None, total_paid := None\<rparr>"

text \<open>A key that is present and not \<^verbatim>\<open>None\<close>.\<close>

definition non_null :: "pyval option \<Rightarrow> bool" where
  "non_null v = (v \<noteq> None \<and> v \<noteq> Some PNone)"

text \<open>
  The per-record view of \<^verbatim>\<open>_add_monthly_costs\<close>: the records of a list that share the
  category of \<open>t\<close>, the frequency a record contributes, and the monthly cost of a group
  (mean amount, converted by the frequency of the group's first record, rounded).
\<close>

definition category_group :: "txn \<Rightarrow> txn list \<Rightarrow> txn list" where
  "category_group t ts = filter (\<lambda>u. category_get u = category_get t) ts"

definition frequency_of :: "txn \<Rightarrow> pyval" where
  "frequency_of t = (case frequency t of None \<Rightarrow> PStr ''Monthly'' | Some f \<Rightarrow> f)"

definition group_cost :: "(rat list \<Rightarrow> rat) \<Rightarrow> txn list \<Rightarrow> rat option" where
  "group_cost fsum g =
     (case g of
        [] \<Rightarrow> None
      | u # rest \<Rightarrow>
          Some (round2 (to_monthly (frequency_of u)
                          (fdiv (fsum (map amount g)) (of_nat (length g))))))"

text \<open>
  What the second loop of \<^verbatim>\<open>_add_monthly_costs\<close> writes for one group, and what the
  whole loop does to one record.
\<close>

definition set_costs :: "(rat list \<Rightarrow> rat) \<Rightarrow> (rat \<times> pyval) list \<Rightarrow> txn \<Rightarrow> txn" where
  "set_costs fsum items t =
     (case items of
        [] \<Rightarrow> t
      | item0 # rest \<Rightarrow>
          t\<lparr>monthly_cost :=
               Some (round2 (to_monthly (snd item0)
                               (fdiv (fsum (map fst items)) (of_nat (length items))))),
            total_paid := Some (fsum (map fst items))\<rparr>)"

definition apply_groups ::
  "(rat list \<Rightarrow> rat) \<Rightarrow> (pykey \<times> (rat \<times> pyval) list) list \<Rightarrow> txn \<Rightarrow> txn" where
  "apply_groups fsum G t =
     (case category_get t of
        None \<Rightarrow> t
      | Some k \<Rightarrow> (case map_of G k of None \<Rightarrow> t | Some items \<Rightarrow> set_costs fsum items t))"


text \<open>
  The per-category view of \<^verbatim>\<open>analyze_frequency\<close>: the key a record is filed under, the
  payments observed for a key, in input order, and the mean day gap of a sorted list of
  payments. A record is analysable when, if flagged, its category is hashable and it has
  a date.
\<close>

definition category_key :: "txn \<Rightarrow> pykey option" where
  "category_key t = py_key (case category t of None \<Rightarrow> PStr ''Unknown'' | Some c \<Rightarrow> c)"

definition observations :: "pykey \<Rightarrow> txn list \<Rightarrow> (int \<times> rat) list" where
  "observations k ts =
     List.map_filter
       (\<lambda>t. if flagged t \<and> category_key t = Some k
            then map_option (\<lambda>d. (d, amount t)) (date t) else None) ts"

definition mean_gap :: "(int \<times> rat) list \<Rightarrow> rat" where
  "mean_gap payments =
     fdiv (of_int (sum_list (intervals payments))) (of_nat (length (intervals payments)))"

definition analysable :: "txn \<Rightarrow> bool" where
  "analysable t = (\<not> flagged t \<or> (category_key t \<noteq> None \<and> date t \<noteq> None))"

text \<open>
  The bucketing as the specification words it: the same ranges, and outside them the
  label with the average rounded to the nearest integer.
\<close>

definition spec_cadence :: "rat \<Rightarrow> string" where
  "spec_cadence avg_interval =
     (if 25 \<le> avg_interval \<and> avg_interval \<le> 35 then ''Monthly''
      else if 85 \<le> avg_interval \<and> avg_interval \<le> 95 then ''Quarterly''
      else if 175 \<le> avg_interval \<and> avg_interval \<le> 185 then ''Bi-annual''
      else if 360 \<le> avg_interval \<and> avg_interval \<le> 370 then ''Yearly''
      else if 7 \<le> avg_interval \<and> avg_interval \<le> 9 then ''Weekly''
      else ''Every '' @ show_int (round avg_interval) @ '' days'')"

text \<open>The entries \<^verbatim>\<open>analyze_frequency\<close> writes for the groups of its first loop.\<close>

definition entries ::
  "(rat list \<Rightarrow> rat) \<Rightarrow> (pykey \<times> (int \<times> rat) list) list \<Rightarrow> (pykey \<times> stats) list" where
  "entries fsum G =
     concat (map (\<lambda>(cat, payments).
                case analyze_group fsum payments of None \<Rightarrow> [] | Some st \<Rightarrow> [(cat, st)]) G)"

text \<open>What the first loop of \<^verbatim>\<open>_add_monthly_costs\<close> stores for a record.\<close>

definition item_of :: "txn \<Rightarrow> rat \<times> pyval" where
  "item_of u = (amount u, frequency_of u)"

subsection \<open>Example inputs\<close>

text \<open>Three payments to one streaming service, 30 days apart, 15.00 each.\<close>

definition netflix_three :: "txn list" where
  "netflix_three =
     [raw_txn (Some 0) ''NETFLIX'' 15 (extract_merchant ''NETFLIX''),
      raw_txn (Some (30 * us_per_day)) ''NETFLIX'' 15 (extract_merchant ''NETFLIX''),
      raw_txn (Some (60 * us_per_day)) ''NETFLIX'' 15 (extract_merchant ''NETFLIX'')]"

text \<open>
  Two statement rows whose descriptions start with three short numbers: the merchant the
  parser derives is the three numbers, which the clean-up reduces to nothing.
\<close>

definition numbered_rows :: "txn list" where
  "numbered_rows =
     [raw_txn (Some 0) ''12 34 56 NETFLIX'' 15 (extract_merchant ''12 34 56 NETFLIX''),
      raw_txn (Some (30 * us_per_day)) ''99 34 56 SPOTIFY'' 10
        (extract_merchant ''99 34 56 SPOTIFY'')]"

text \<open>
  A response of the service for a batch of two, with \<^verbatim>\<open>null\<close> for the type and the
  frequency, and \<^verbatim>\<open>json.loads\<close> on that one text.
\<close>

definition null_labels_response :: string where
  \<open>null_labels_response =
     ''[{"is_membership": true, "membership_type": null, "frequency": null, "category": "NETFLIX"}, {"is_membership": true, "membership_type": null, "frequency": null, "category": "NETFLIX"}]''\<close>

definition null_labels_loads :: "string \<Rightarrow> pyval option" where
  "null_labels_loads s =
     (if s = null_labels_response
      then Some (PList
        [PDict [(''is_membership'', PBool True), (''membership_type'', PNone),
                (''frequency'', PNone), (''category'', PStr ''NETFLIX'')],
         PDict [(''is_membership'', PBool True), (''membership_type'', PNone),
                (''frequency'', PNone), (''category'', PStr ''NETFLIX'')]])
      else None)"



text \<open>The three streaming payments and one payment to a software vendor.\<close>

definition mixed_rows :: "txn list" where
  "mixed_rows =
     netflix_three @
     [raw_txn (Some (61 * us_per_day)) ''ADOBE SOFTWARE'' 60 (extract_merchant ''ADOBE SOFTWARE'')]"

text \<open>
  Two yearly gym fees of mean 120.00 and two weekly class fees of 10.00, as the rules
  read them from the keywords of the descriptions.
\<close>

definition cadence_rows :: "txn list" where
  "cadence_rows =
     [raw_txn (Some 0) ''GYM ANNUAL FEE'' 100 (extract_merchant ''GYM ANNUAL FEE''),
      raw_txn (Some (7 * us_per_day)) ''WEEKLY YOGI CLASS'' 10
        (extract_merchant ''WEEKLY YOGI CLASS''),
      raw_txn (Some (14 * us_per_day)) ''WEEKLY YOGI CLASS'' 10
        (extract_merchant ''WEEKLY YOGI CLASS''),
      raw_txn (Some (365 * us_per_day)) ''GYM ANNUAL FEE'' 140 (extract_merchant ''GYM ANNUAL FEE'')]"

text \<open>
  Two yearly gym fees of 119.94 each, and two weekly class fees of 0.10 and 0.20. The
  float 119.94 lies below the decimal, so does its twelfth below 9.995, and \<^verbatim>\<open>round\<close>
  gives 9.99 (on the decimals, 9.995 would be a tie). The float sum of 0.1 and 0.2 is the
  float after 0.3.
\<close>

definition rounding_rows :: "txn list" where
  "rounding_rows =
     [raw_txn (Some 0) ''GYM ANNUAL FEE'' (fl (11994 / 100)) (extract_merchant ''GYM ANNUAL FEE''),
      raw_txn (Some (7 * us_per_day)) ''WEEKLY YOGI CLASS'' (fl (1 / 10))
        (extract_merchant ''WEEKLY YOGI CLASS''),
      raw_txn (Some (14 * us_per_day)) ''WEEKLY YOGI CLASS'' (fl (2 / 10))
        (extract_merchant ''WEEKLY YOGI CLASS''),
      raw_txn (Some (365 * us_per_day)) ''GYM ANNUAL FEE'' (fl (11994 / 100))
        (extract_merchant ''GYM ANNUAL FEE'')]"

text \<open>
  Two payments to one merchant, of 120 and 140, one read as Yearly and one as Monthly by
  the rules, in both orders.
\<close>

definition yearly_first :: "txn list" where
  "yearly_first =
     [raw_txn (Some 0) ''GYM CLUB PARIS ANNUAL FEE'' 120
        (extract_merchant ''GYM CLUB PARIS ANNUAL FEE''),
      raw_txn (Some (30 * us_per_day)) ''GYM CLUB PARIS MONTHLY FEE'' 140
        (extract_merchant ''GYM CLUB PARIS MONTHLY FEE'')]"

definition monthly_first :: "txn list" where
  "monthly_first = rev yearly_first"

text \<open>A stored membership payment: flagged, with a category, made on a given day.\<close>

definition membership_on :: "int \<Rightarrow> string \<Rightarrow> rat \<Rightarrow> txn" where
  "membership_on day cat a =
     (raw_txn (Some (day * us_per_day)) cat a cat)
       \<lparr>is_membership := Some (PBool True), category := Some (PStr cat)\<rparr>"

text \<open>Four payments with day gaps 40, 41 and 41, and one payment of another category.\<close>

definition uneven_rows :: "txn list" where
  "uneven_rows =
     [membership_on 0 ''POOL'' 9, membership_on 81 ''POOL'' 9, membership_on 40 ''POOL'' 9,
      membership_on 5 ''ONCE'' 20, membership_on 122 ''POOL'' 9]"

section \<open>Amount parsing and the table path\<close>

text \<open>
  Claim C5. The amount parser is said to read a currency symbol followed by digits with a
  decimal comma as the same magnitude written with a decimal point, so that the euro sign,
  a space and \<^verbatim>\<open>12,50\<close> give 12.50. The code removes the dollar sign and every comma and
  hands the rest to \<^verbatim>\<open>float\<close>: with the euro sign the rest is no number and the result is
  0; with the dollar sign the comma is dropped and \<^verbatim>\<open>$12,50\<close> is read as 1250.
\<close>

theorem parse_amount_decimal_comma:
  "parse_amount decimal_float (Str (euro @ '' 12,50'')) = 0 \<and>
   parse_amount decimal_float (Str ''$12,50'') = 1250 \<and>
   parse_amount decimal_float (Str ''$12.50'') = 25 / 2"
  by code_simp

text \<open>
  Claim C6. Every record the statement parser emits is said to carry a non-negative
  amount. On the table path the parsed amount is stored as it is (the CSV and free-text
  paths take the absolute value): a table row with the amount \<^verbatim>\<open>-12.50\<close> is emitted with
  the amount -12.5.
\<close>

theorem parse_table_negative_amount:
  "parse_table decimal_float parse now
     [[Some ''Description'', Some ''Amount''], [Some ''NETFLIX'', Some ''-12.50'']]
   = [raw_txn None ''NETFLIX'' (- (25 / 2)) ''NETFLIX''] \<and>
   amount (raw_txn None ''NETFLIX'' (- (25 / 2)) ''NETFLIX'') < 0"
  by code_simp

section \<open>The keyword that never matches\<close>

lemma py_in_set: "py_in k s \<Longrightarrow> set k \<subseteq> set s"
proof (induction s)
  case Nil
  then show ?case by simp
next
  case (Cons c cs)
  then show ?case
    using set_mono_prefix [of k "c # cs"] by auto
qed

lemma upper_char_not_a: "upper_char c \<noteq> CHR ''a''"
  by (simp add: upper_char_def)

lemma saas_not_in_upper:
  "py_in ''SaaS'' (py_upper d @ '' '' @ py_upper m) = False"
proof -
  have "CHR ''a'' \<notin> set (py_upper d @ '' '' @ py_upper m)"
    by (auto simp: py_upper_def upper_char_not_a [symmetric])
  then show ?thesis
    using py_in_set [of "''SaaS''" "py_upper d @ '' '' @ py_upper m"] by auto
qed

lemma any_in_Cons: "any_in (k # ks) s = (py_in k s \<or> any_in ks s)"
  by (simp add: any_in_def)

text \<open>
  Claim C10. The tested text is the upper-cased description, a space and the upper-cased
  merchant, so it holds no lower-case \<open>a\<close> and the keyword \<^verbatim>\<open>SaaS\<close> is found in no text:
  the rule-based classifier of one transaction returns, on every transaction (the
  \<^verbatim>\<open>IndexError\<close> case included), what the same function without \<^verbatim>\<open>SaaS\<close> in the membership
  keywords and in the Software keywords returns.
\<close>

theorem saas_keyword_dead:
  "classify_single t = classify_single_without_saas t"
  unfolding classify_single_def classify_single_without_saas_def classify_single_with_def
    classify_type_def membership_keywords_def software_keywords_def Let_def
  by (simp only: any_in_Cons saas_not_in_upper simp_thms)

section \<open>Fallback of a batch to the rules\<close>

lemma py_split_Nil_iff: "py_split s = [] \<longleftrightarrow> list_all isspace s"
  by (induction s rule: py_split.induct) auto









lemma unparseable_no_array: "unparseable loads content \<Longrightarrow> no_array_parsed loads content"
  by (auto simp: unparseable_def no_array_parsed_def is_array_def split: option.splits)

text \<open>
  A description of whitespace only, with a merchant that cleans to nothing, is the one
  input on which the rule-based classifier raises (\<^verbatim>\<open>description.split()[0]\<close> under a test
  that the description is not empty), and then so does \<^verbatim>\<open>_classify_batch\<close>, whose handlers
  call it. The statement parser strips the descriptions it stores, so it builds no such
  record; the statements below leave these records out.
\<close>

lemma blank_description_raises:
  "blank_description (raw_txn (Some 0) '' '' 5 []) \<and>
   rule_based_classify [raw_txn (Some 0) '' '' 5 []] = Inl IndexError \<and>
   classify_batch (\<lambda>s. None) (Some ''No JSON here'') [raw_txn (Some 0) '' '' 5 []]
     = Inl IndexError"
  by code_simp




section \<open>Merchant normalisation\<close>

subsection \<open>Whitespace and tokens\<close>

lemma takeWhile_stop: "\<not> P c \<Longrightarrow> takeWhile P (xs @ c # b) = takeWhile P xs"
  by (induction xs) auto

lemma dropWhile_stop: "\<not> P c \<Longrightarrow> dropWhile P (xs @ c # b) = dropWhile P xs @ c # b"
  by (induction xs) auto

lemma takeWhile_trailing:
  "\<forall>c\<in>set r. \<not> P c \<Longrightarrow> takeWhile P (xs @ r) = takeWhile P xs"
  by (cases r) (auto simp: takeWhile_stop)

lemma dropWhile_trailing:
  "\<forall>c\<in>set r. \<not> P c \<Longrightarrow> dropWhile P (xs @ r) = dropWhile P xs @ r"
  by (cases r) (auto simp: dropWhile_stop)

lemma py_split_trailing:
  "\<forall>c\<in>set r. isspace c \<Longrightarrow> py_split (x @ r) = py_split x"
proof (induction x rule: py_split.induct)
  case 1
  then show ?case by (simp add: py_split_Nil_iff list_all_iff)
next
  case (2 c cs)
  then show ?case
    by (simp add: takeWhile_trailing dropWhile_trailing)
qed

lemma py_split_dropWhile: "py_split (dropWhile isspace s) = py_split s"
  by (induction s) auto

lemma py_split_strip: "py_split (py_strip s) = py_split s"
proof -
  let ?t = "dropWhile isspace s"
  have "?t = rev (dropWhile isspace (rev ?t)) @ rev (takeWhile isspace (rev ?t))"
    by (metis rev_append rev_rev_ident takeWhile_dropWhile_id)
  moreover have "\<forall>c\<in>set (rev (takeWhile isspace (rev ?t))). isspace c"
    by (auto dest: set_takeWhileD)
  ultimately have "py_split ?t = py_split (rev (dropWhile isspace (rev ?t)))"
    using py_split_trailing by metis
  then show ?thesis
    by (simp add: py_strip_def py_split_dropWhile)
qed

lemma collapse_takeWhile: "takeWhile (\<lambda>x. \<not> isspace x) (collapse_ws s) = takeWhile (\<lambda>x. \<not> isspace x) s"
  by (induction s rule: collapse_ws.induct) (auto simp: isspace_def)

lemma collapse_dropWhile: "dropWhile (\<lambda>x. \<not> isspace x) (collapse_ws s) = collapse_ws (dropWhile (\<lambda>x. \<not> isspace x) s)"
  by (induction s rule: collapse_ws.induct) (auto simp: isspace_def)

lemma py_split_collapse: "py_split (collapse_ws s) = py_split s"
proof (induction s rule: length_induct)
  case (1 s)
  show ?case
  proof (cases s)
    case Nil
    then show ?thesis by simp
  next
    case (Cons c cs)
    show ?thesis
    proof (cases "isspace c")
      case True
      have "length (dropWhile isspace cs) < length s"
        using Cons by (simp add: le_imp_less_Suc length_dropWhile_le)
      then have "py_split (collapse_ws (dropWhile isspace cs)) = py_split (dropWhile isspace cs)"
        using 1 by blast
      then show ?thesis
        using Cons True by (simp add: py_split_dropWhile isspace_def)
    next
      case False
      have "length (dropWhile (\<lambda>x. \<not> isspace x) cs) < length s"
        using Cons by (simp add: le_imp_less_Suc length_dropWhile_le)
      then have "py_split (collapse_ws (dropWhile (\<lambda>x. \<not> isspace x) cs)) = py_split (dropWhile (\<lambda>x. \<not> isspace x) cs)"
        using 1 by blast
      then show ?thesis
        using Cons False by (simp add: collapse_takeWhile collapse_dropWhile)
    qed
  qed
qed

lemma py_split_normalised: "py_split (py_strip (collapse_ws s)) = py_split s"
  by (simp add: py_split_strip py_split_collapse)


lemma py_split_tokens: "w \<in> set (py_split s) \<Longrightarrow> token w \<and> set w \<subseteq> set s"
proof (induction s rule: py_split.induct)
  case 1
  then show ?case by simp
next
  case (2 c cs)
  show ?case
  proof (cases "isspace c")
    case True
    with 2 have "token w \<and> set w \<subseteq> set cs" by simp
    then show ?thesis by auto
  next
    case False
    let ?tok = "c # takeWhile (\<lambda>x. \<not> isspace x) cs"
    let ?rest = "dropWhile (\<lambda>x. \<not> isspace x) cs"
    from "2.prems" False have "w = ?tok \<or> w \<in> set (py_split ?rest)" by simp
    then show ?thesis
    proof
      assume w: "w = ?tok"
      have "\<forall>x\<in>set (takeWhile (\<lambda>x. \<not> isspace x) cs). \<not> isspace x \<and> x \<in> set cs"
        by (auto dest: set_takeWhileD)
      then show ?thesis
        unfolding w token_def list_all_iff using False by auto
    next
      assume "w \<in> set (py_split ?rest)"
      then have "token w \<and> set w \<subseteq> set ?rest"
        using "2.IH"(2) False by blast
      moreover have "set ?rest \<subseteq> set cs"
        by (meson set_dropWhileD subsetI)
      ultimately show ?thesis by auto
    qed
  qed
qed

lemma py_split_token_append:
  assumes "token w" and "r = [] \<or> isspace (hd r)"
  shows "py_split (w @ r) = w # py_split r"
proof -
  from assms(1) obtain c w' where w: "w = c # w'" and c: "\<not> isspace c"
    and w': "\<forall>x\<in>set w'. \<not> isspace x"
    by (cases w) (auto simp: token_def list_all_iff)
  have "takeWhile (\<lambda>x. \<not> isspace x) (w' @ r) = w'" "dropWhile (\<lambda>x. \<not> isspace x) (w' @ r) = r"
    using w' assms(2) by (cases r; simp)+
  then show ?thesis
    using w c by simp
qed

lemma py_split_join:
  "list_all token ws \<Longrightarrow> py_split (py_join '' '' ws) = ws"
proof (induction "'' ''" ws rule: py_join.induct)
  case 1
  then show ?case by simp
next
  case (2 w)
  then show ?case
    using py_split_token_append [of w "[]"] by simp
next
  case (3 w v ws)
  then show ?case
    using py_split_token_append [of w "'' '' @ py_join '' '' (v # ws)"]
    by (simp add: isspace_def)
qed

lemma set_py_join:
  "c \<in> set (py_join '' '' ws) \<Longrightarrow> c = CHR '' '' \<or> (\<exists>w\<in>set ws. c \<in> set w)"
proof (induction "'' ''" ws rule: py_join.induct)
  case 1
  then show ?case by simp
next
  case (2 w)
  then show ?case by simp
next
  case (3 w v ws)
  from "3.prems" have "c \<in> set w \<or> c = CHR '' '' \<or> c \<in> set (py_join '' '' (v # ws))"
    by auto
  with "3.hyps" show ?case by fastforce
qed

subsection \<open>Long runs of digits\<close>

declare remove_long_digit_runs.simps(2) [simp del]

lemma isspace_not_digit: "isspace c \<Longrightarrow> \<not> isdigit c"
  by (auto simp: isspace_def isdigit_def)

lemma rdr_nondigit [simp]:
  "\<not> isdigit c \<Longrightarrow> remove_long_digit_runs (c # cs) = c # remove_long_digit_runs cs"
  by (simp add: remove_long_digit_runs.simps(2))

lemma rdr_digit:
  "isdigit c \<Longrightarrow> remove_long_digit_runs (c # cs) =
     (if 4 \<le> length (c # takeWhile isdigit cs) then [] else c # takeWhile isdigit cs)
       @ remove_long_digit_runs (dropWhile isdigit cs)"
  by (simp add: remove_long_digit_runs.simps(2))

lemma rdr_sep:
  "\<not> isdigit c \<Longrightarrow>
   remove_long_digit_runs (a @ c # b) = remove_long_digit_runs a @ c # remove_long_digit_runs b"
proof (induction a rule: remove_long_digit_runs.induct)
  case 1
  then show ?case by simp
next
  case (2 x xs)
  show ?case
  proof (cases "isdigit x")
    case True
    then show ?thesis
      using 2 rdr_digit [of x "xs @ c # b"] rdr_digit [of x xs]
      by (simp add: takeWhile_stop dropWhile_stop)
  next
    case False
    then show ?thesis using 2 by simp
  qed
qed

lemma rdr_length: "length (remove_long_digit_runs s) \<le> length s"
proof (induction s rule: remove_long_digit_runs.induct)
  case 1
  then show ?case by simp
next
  case (2 c cs)
  have "length (takeWhile isdigit cs) + length (dropWhile isdigit cs) = length cs"
    by (metis length_append takeWhile_dropWhile_id)
  with 2 show ?case
    by (cases "isdigit c") (auto simp: rdr_digit)
qed

lemma rdr_set: "set (remove_long_digit_runs s) \<subseteq> set s"
proof (induction s rule: remove_long_digit_runs.induct)
  case 1
  then show ?case by simp
next
  case (2 c cs)
  show ?case
  proof (cases "isdigit c")
    case True
    with 2 have "set (remove_long_digit_runs (dropWhile isdigit cs)) \<subseteq> set cs"
      by (auto dest: set_dropWhileD)
    moreover have "set (takeWhile isdigit cs) \<subseteq> set cs"
      by (auto dest: set_takeWhileD)
    ultimately show ?thesis
      using True by (auto simp: rdr_digit)
  next
    case False
    with 2 show ?thesis by auto
  qed
qed

lemma rdr_digits:
  assumes "list_all isdigit ds"
  shows "remove_long_digit_runs ds = (if 4 \<le> length ds then [] else ds)"
proof (cases ds)
  case Nil
  then show ?thesis by simp
next
  case (Cons d ds')
  with assms have d: "isdigit d" and tw: "takeWhile isdigit ds' = ds'"
    and dw: "dropWhile isdigit ds' = []"
    by (simp_all add: list_all_iff)
  show ?thesis
    unfolding Cons rdr_digit [OF d] tw dw by simp
qed

lemma rdr_idem:
  "remove_long_digit_runs (remove_long_digit_runs s) = remove_long_digit_runs s"
proof (induction s rule: remove_long_digit_runs.induct)
  case 1
  then show ?case by simp
next
  case (2 c cs)
  show ?case
  proof (cases "isdigit c")
    case False
    with 2 show ?thesis by simp
  next
    case True
    let ?run = "c # takeWhile isdigit cs"
    let ?rest = "dropWhile isdigit cs"
    have run: "list_all isdigit ?run"
      using True by (auto simp: list_all_iff dest: set_takeWhileD)
    have IH: "remove_long_digit_runs (remove_long_digit_runs ?rest) = remove_long_digit_runs ?rest"
      using 2 True by simp
    have app: "remove_long_digit_runs (?run @ remove_long_digit_runs ?rest)
            = remove_long_digit_runs ?run @ remove_long_digit_runs ?rest"
    proof (cases ?rest)
      case Nil
      show ?thesis unfolding Nil by simp
    next
      case (Cons n rest')
      then have n: "\<not> isdigit n"
        by (metis hd_dropWhile list.distinct(1) list.sel(1))
      have "remove_long_digit_runs (?run @ n # remove_long_digit_runs rest')
              = remove_long_digit_runs ?run @ n # remove_long_digit_runs (remove_long_digit_runs rest')"
        by (rule rdr_sep [OF n])
      moreover have "n # remove_long_digit_runs (remove_long_digit_runs rest')
                       = n # remove_long_digit_runs rest'"
        using IH n unfolding Cons by simp
      ultimately show ?thesis
        using n unfolding Cons by simp
    qed
    show ?thesis
    proof (cases "4 \<le> length ?run")
      case long: True
      have "remove_long_digit_runs (c # cs) = remove_long_digit_runs ?rest"
        using rdr_digit [OF True, of cs] long by simp
      then show ?thesis
        using IH by (simp only:)
    next
      case short: False
      have fixed: "remove_long_digit_runs ?run = ?run"
        using rdr_digits [OF run] short by simp
      have lhs: "remove_long_digit_runs (c # cs) = ?run @ remove_long_digit_runs ?rest"
        using rdr_digit [OF True, of cs] short by simp
      have "remove_long_digit_runs (?run @ remove_long_digit_runs ?rest)
              = ?run @ remove_long_digit_runs ?rest"
        using app by (simp only: fixed)
      then show ?thesis
        by (simp only: lhs)
    qed
  qed
qed

lemma rdr_fixed_tokens:
  "remove_long_digit_runs s = s \<Longrightarrow> w \<in> set (py_split s) \<Longrightarrow> remove_long_digit_runs w = w"
proof (induction s rule: py_split.induct)
  case 1
  then show ?case by simp
next
  case (2 c cs)
  show ?case
  proof (cases "isspace c")
    case True
    then have "remove_long_digit_runs (c # cs) = c # remove_long_digit_runs cs"
      by (simp add: isspace_not_digit)
    with 2 True show ?thesis by simp
  next
    case False
    let ?tok = "c # takeWhile (\<lambda>x. \<not> isspace x) cs"
    let ?rest = "dropWhile (\<lambda>x. \<not> isspace x) cs"
    have s: "c # cs = ?tok @ ?rest" by simp
    have split: "remove_long_digit_runs ?tok = ?tok \<and> remove_long_digit_runs ?rest = ?rest"
    proof (cases ?rest)
      case Nil
      have "c # cs = ?tok" using s unfolding Nil by simp
      then show ?thesis using "2.prems"(1) unfolding Nil by simp
    next
      case (Cons sp rest')
      then have sp: "isspace sp"
        by (metis hd_dropWhile list.distinct(1) list.sel(1))
      then have nd: "\<not> isdigit sp" by (rule isspace_not_digit)
      have "c # cs = ?tok @ sp # rest'"
        using s unfolding Cons .
      then have eq: "remove_long_digit_runs ?tok @ sp # remove_long_digit_runs rest'
                       = ?tok @ sp # rest'"
        using "2.prems"(1) rdr_sep [OF nd, of ?tok rest'] by simp
      have len: "length (remove_long_digit_runs ?tok) = length ?tok"
      proof -
        have "length (remove_long_digit_runs ?tok) + length (remove_long_digit_runs rest')
              = length ?tok + length rest'"
          using arg_cong [OF eq, of length] by simp
        then show ?thesis
          using rdr_length [of ?tok] rdr_length [of rest'] by linarith
      qed
      have "remove_long_digit_runs ?tok = ?tok \<and>
            sp # remove_long_digit_runs rest' = sp # rest'"
        by (rule append_eq_append_conv [OF disjI1 [OF len], THEN iffD1, OF eq])
      then show ?thesis
        using nd unfolding Cons by simp
    qed
    from "2.prems"(2) False have "w = ?tok \<or> w \<in> set (py_split ?rest)" by simp
    then show ?thesis
      using split "2.IH"(2) False by auto
  qed
qed

lemma rdr_fixed_join:
  "list_all (\<lambda>w. remove_long_digit_runs w = w) ws \<Longrightarrow>
   remove_long_digit_runs (py_join '' '' ws) = py_join '' '' ws"
proof (induction "'' ''" ws rule: py_join.induct)
  case 1
  then show ?case by simp
next
  case (2 w)
  then show ?case by simp
next
  case (3 w v ws)
  have "\<not> isdigit (CHR '' '')" by (simp add: isdigit_def)
  from rdr_sep [OF this, of w "py_join '' '' (v # ws)"] 3 show ?case by simp
qed

subsection \<open>Idempotence\<close>

lemma upper_char_idem: "upper_char (upper_char c) = upper_char c"
  by (simp add: upper_char_def)

lemma py_upper_fixed: "\<forall>c\<in>set s. upper_char c = c \<Longrightarrow> py_upper s = s"
  by (simp add: py_upper_def map_idI)

lemma take3_nonempty: "take 3 xs \<noteq> [] \<longleftrightarrow> xs \<noteq> []"
  by (cases xs) auto

lemma extract_merchant_tokens:
  assumes "py_split (remove_long_digit_runs (py_upper s)) \<noteq> []"
  shows "extract_merchant s = py_join '' '' (take 3 (py_split (remove_long_digit_runs (py_upper s))))"
  using assms by (simp add: extract_merchant_def py_split_normalised take3_nonempty)

lemma extract_merchant_fallback:
  assumes "py_split (remove_long_digit_runs (py_upper s)) = []"
  shows "extract_merchant s = take 30 s"
  using assms by (simp add: extract_merchant_def py_split_normalised)

text \<open>
  Claim C8, amended. Normalising a merchant twice gives what normalising it once gives,
  for every description that leaves at least one token after upper-casing and removing
  the runs of four or more digits, and for every description of at most 30 characters.
\<close>

theorem extract_merchant_idempotent:
  assumes "py_split (remove_long_digit_runs (py_upper s)) \<noteq> [] \<or> length s \<le> 30"
  shows "extract_merchant (extract_merchant s) = extract_merchant s"
proof (cases "py_split (remove_long_digit_runs (py_upper s)) = []")
  case True
  with assms have "extract_merchant s = s"
    by (simp add: extract_merchant_fallback)
  then show ?thesis by simp
next
  case False
  let ?x = "remove_long_digit_runs (py_upper s)"
  let ?ws = "take 3 (py_split ?x)"
  let ?r = "py_join '' '' ?ws"
  have r: "extract_merchant s = ?r"
    using False by (rule extract_merchant_tokens)
  have sub: "set ?ws \<subseteq> set (py_split ?x)"
    by (rule set_take_subset)
  have ws: "?ws \<noteq> []"
    using False by (simp add: take3_nonempty)
  have tok: "list_all token ?ws"
    using sub py_split_tokens by (auto simp: list_all_iff)
  have fixed_x: "remove_long_digit_runs ?x = ?x"
    by (rule rdr_idem)
  have dig: "list_all (\<lambda>w. remove_long_digit_runs w = w) ?ws"
    using sub rdr_fixed_tokens [OF fixed_x] by (auto simp: list_all_iff)
  have up: "\<forall>c\<in>set ?r. upper_char c = c"
  proof
    fix c assume "c \<in> set ?r"
    then have "c = CHR '' '' \<or> (\<exists>w\<in>set ?ws. c \<in> set w)"
      by (rule set_py_join)
    then show "upper_char c = c"
    proof
      assume "c = CHR '' ''"
      then show ?thesis by (simp add: upper_char_def)
    next
      assume "\<exists>w\<in>set ?ws. c \<in> set w"
      then obtain w where "w \<in> set (py_split ?x)" "c \<in> set w"
        using sub by blast
      then have "c \<in> set ?x"
        using py_split_tokens by blast
      then have "c \<in> set (py_upper s)"
        using rdr_set by blast
      then show ?thesis
        by (auto simp: py_upper_def upper_char_idem)
    qed
  qed
  have 1: "py_upper ?r = ?r"
    using up by (rule py_upper_fixed)
  have 2: "remove_long_digit_runs ?r = ?r"
    using dig by (rule rdr_fixed_join)
  have 3: "py_split ?r = ?ws"
    using tok by (rule py_split_join)
  have "py_split (remove_long_digit_runs (py_upper ?r)) = ?ws"
    by (simp only: 1 2 3)
  then have "extract_merchant ?r = py_join '' '' (take 3 ?ws)"
    using ws extract_merchant_tokens [of ?r] by simp
  then show ?thesis
    by (simp add: r)
qed

text \<open>
  Claim C8, as stated (idempotence on every string), fails where no token remains and the
  fallback cuts the description at 30 characters: 28 digits, a space and 4 digits give the
  first 30 characters, which end in a run of one digit, and that run is a token of the
  second pass.
\<close>

theorem extract_merchant_not_idempotent:
  "extract_merchant (extract_merchant ''1111222233334444555566667777 8888'')
     \<noteq> extract_merchant ''1111222233334444555566667777 8888''"
  by code_simp

theorem extract_merchant_idempotent_witness:
  "extract_merchant (extract_merchant ''Netflix.com 12345678 Amsterdam NL'')
     = extract_merchant ''Netflix.com 12345678 Amsterdam NL''"
proof -
  have "py_split (remove_long_digit_runs (py_upper ''Netflix.com 12345678 Amsterdam NL'')) \<noteq> []
        \<or> length ''Netflix.com 12345678 Amsterdam NL'' \<le> 30"
    by code_simp
  then show ?thesis
    by (rule extract_merchant_idempotent)
qed

section \<open>Grouping loops\<close>

lemma map_of_add_to_group:
  "map_of (add_to_group k v g) k' =
     (if k' = k then Some ((case map_of g k of None \<Rightarrow> [] | Some vs \<Rightarrow> vs) @ [v])
      else map_of g k')"
  by (induction g) auto

lemma map_fst_add_to_group:
  "map fst (add_to_group k v g) =
     (if k \<in> set (map fst g) then map fst g else map fst g @ [k])"
  by (induction g) (force+)

lemma distinct_add_to_group:
  "distinct (map fst g) \<Longrightarrow> distinct (map fst (add_to_group k v g))"
  by (simp add: map_fst_add_to_group)

lemma group_pairs_Nil [simp]: "group_pairs [] g = g"
  by (simp add: group_pairs_def)

lemma group_pairs_Cons [simp]:
  "group_pairs (p # ps) g = group_pairs ps (add_to_group (fst p) (snd p) g)"
  by (simp add: group_pairs_def)

lemma distinct_group_pairs:
  "distinct (map fst g) \<Longrightarrow> distinct (map fst (group_pairs ps g))"
  by (induction ps arbitrary: g) (auto simp: distinct_add_to_group)

lemma map_of_group_pairs:
  "map_of (group_pairs ps g) k =
     (if values_of k ps = [] then map_of g k
      else Some ((case map_of g k of None \<Rightarrow> [] | Some vs \<Rightarrow> vs) @ values_of k ps))"
proof (induction ps arbitrary: g)
  case Nil
  then show ?case by (simp add: values_of_def)
next
  case (Cons p ps)
  show ?case
    by (cases "fst p = k") (auto simp: Cons map_of_add_to_group values_of_def)
qed

lemma map_of_group_pairs_empty:
  "map_of (group_pairs ps []) k = (if values_of k ps = [] then None else Some (values_of k ps))"
  by (simp add: map_of_group_pairs)

lemma group_loop_pairs:
  "group_loop f xs g = Inr G \<Longrightarrow> G = group_pairs (pairs_of f xs) g"
proof (induction xs arbitrary: g)
  case Nil
  then show ?case by (simp add: pairs_of_def map_filter_simps)
next
  case (Cons x xs)
  show ?case
  proof (cases "f x")
    case (Inl e)
    with Cons.prems show ?thesis by simp
  next
    case (Inr p)
    show ?thesis
    proof (cases p)
      case None
      with Cons Inr show ?thesis by (simp add: pairs_of_def map_filter_simps)
    next
      case (Some kv)
      with Cons Inr show ?thesis
        by (cases kv) (simp add: pairs_of_def map_filter_simps)
    qed
  qed
qed

lemma group_loop_total:
  "\<forall>x\<in>set xs. \<exists>p. f x = Inr p \<Longrightarrow> \<exists>G. group_loop f xs g = Inr G"
proof (induction xs arbitrary: g)
  case Nil
  then show ?case by simp
next
  case (Cons x xs)
  then obtain p where p: "f x = Inr p" by auto
  from Cons have "\<And>g'. \<exists>G. group_loop f xs g' = Inr G" by simp
  then show ?case
    using p by (cases p) auto
qed

lemma group_loop_no_error:
  "group_loop f xs g = Inr G \<Longrightarrow> x \<in> set xs \<Longrightarrow> \<exists>p. f x = Inr p"
proof (induction xs arbitrary: g)
  case Nil
  then show ?case by simp
next
  case (Cons y ys)
  show ?case
  proof (cases "f y")
    case (Inl e)
    with Cons.prems show ?thesis by simp
  next
    case (Inr p)
    show ?thesis
    proof (cases "x = y")
      case True
      with Inr show ?thesis by simp
    next
      case False
      with Cons.prems have "x \<in> set ys" by simp
      moreover from Cons.prems(1) Inr obtain g' where "group_loop f ys g' = Inr G"
        by (cases p) auto
      ultimately show ?thesis using Cons.IH by blast
    qed
  qed
qed

subsection \<open>The one-time-payment filter, record by record\<close>

lemma zip_upt_nth: "zip [0..<length xs] xs = map (\<lambda>i. (i, xs ! i)) [0..<length xs]"
proof -
  have "zip [0..<length xs] xs = zip [0..<length xs] (map (\<lambda>i. xs ! i) [0..<length xs])"
    by (simp add: map_nth)
  also have "\<dots> = map (\<lambda>i. (i, xs ! i)) [0..<length xs]"
    by (simp add: zip_map2 zip_same_conv_map)
  finally show ?thesis .
qed

lemma length_filter_nth:
  "length (filter (\<lambda>i. P (xs ! i)) [0..<length xs]) = length (filter P xs)"
proof -
  have "filter P xs = filter P (map (\<lambda>i. xs ! i) [0..<length xs])"
    by (simp add: map_nth)
  also have "\<dots> = map (\<lambda>i. xs ! i) (filter (\<lambda>i. P (xs ! i)) [0..<length xs])"
    by (simp add: filter_map o_def)
  finally show ?thesis by simp
qed

lemma by_merchant_fold:
  "foldl (\<lambda>g (i, t). if flagged t then add_to_group (merchant_key t) i g else g) g xs =
   group_pairs (map (\<lambda>(i, t). (merchant_key t, i)) (filter (\<lambda>(i, t). flagged t) xs)) g"
  by (induction xs arbitrary: g) (auto split: prod.splits)

lemma by_merchant_pairs:
  "by_merchant ts =
   group_pairs (map (\<lambda>i. (merchant_key (ts ! i), i))
                  (filter (\<lambda>i. flagged (ts ! i)) [0..<length ts])) []"
  by (simp add: by_merchant_def by_merchant_fold enumerate_eq_zip zip_upt_nth filter_map o_def)

lemma values_of_by_merchant:
  "values_of k (map (\<lambda>i. (merchant_key (ts ! i), i))
                  (filter (\<lambda>i. flagged (ts ! i)) [0..<length ts])) =
   filter (\<lambda>i. flagged (ts ! i) \<and> merchant_key (ts ! i) = k) [0..<length ts]"
  by (simp add: values_of_def filter_map o_def conj_commute)

lemma map_of_by_merchant:
  "map_of (by_merchant ts) k =
     (let is = filter (\<lambda>i. flagged (ts ! i) \<and> merchant_key (ts ! i) = k) [0..<length ts]
      in if is = [] then None else Some is)"
  by (simp add: by_merchant_pairs map_of_group_pairs_empty values_of_by_merchant Let_def)

lemma distinct_by_merchant: "distinct (map fst (by_merchant ts))"
  by (simp add: by_merchant_pairs distinct_group_pairs)

lemma single_group_iff:
  "(\<exists>m. (m, [i]) \<in> set (by_merchant ts)) \<longleftrightarrow>
   i < length ts \<and> flagged (ts ! i) \<and> key_count (merchant_key (ts ! i)) ts = 1"
proof
  assume "\<exists>m. (m, [i]) \<in> set (by_merchant ts)"
  then obtain m where "map_of (by_merchant ts) m = Some [i]"
    using distinct_by_merchant by (metis map_of_is_SomeI)
  then have eq: "filter (\<lambda>i. flagged (ts ! i) \<and> merchant_key (ts ! i) = m) [0..<length ts] = [i]"
    by (simp add: map_of_by_merchant Let_def split: if_splits)
  then have "i \<in> set (filter (\<lambda>i. flagged (ts ! i) \<and> merchant_key (ts ! i) = m) [0..<length ts])"
    by simp
  then have i: "i < length ts" "flagged (ts ! i)" "merchant_key (ts ! i) = m"
    by simp_all
  have "key_count m ts = 1"
    using arg_cong [OF eq, of length]
      length_filter_nth [of "\<lambda>u. flagged u \<and> merchant_key u = m" ts]
    by (simp add: key_count_def)
  with i show "i < length ts \<and> flagged (ts ! i) \<and> key_count (merchant_key (ts ! i)) ts = 1"
    by simp
next
  assume a: "i < length ts \<and> flagged (ts ! i) \<and> key_count (merchant_key (ts ! i)) ts = 1"
  let ?m = "merchant_key (ts ! i)"
  let ?is = "filter (\<lambda>j. flagged (ts ! j) \<and> merchant_key (ts ! j) = ?m) [0..<length ts]"
  have "length ?is = 1"
    using a length_filter_nth [of "\<lambda>u. flagged u \<and> merchant_key u = ?m" ts]
    by (simp add: key_count_def)
  then obtain j where j: "?is = [j]"
    by (cases ?is) auto
  have "i \<in> set ?is" using a by simp
  with j have "?is = [i]" by simp
  then have "map_of (by_merchant ts) ?m = Some [i]"
    by (simp add: map_of_by_merchant Let_def)
  then show "\<exists>m. (m, [i]) \<in> set (by_merchant ts)"
    by (meson map_of_SomeD)
qed

lemma demote_idem: "demote (demote t) = demote t"
  by (simp add: demote_def)

lemma length_demote_group: "length (demote_group xs g) = length xs"
proof (cases g)
  case (Pair m js)
  show ?thesis
  proof (cases "length js = 1")
    case True
    then obtain j where "js = [j]" by (cases js) auto
    with Pair show ?thesis by (simp add: demote_group_def)
  next
    case False
    with Pair show ?thesis by (simp add: demote_group_def)
  qed
qed

lemma demote_group_nth:
  assumes "i < length xs"
  shows "demote_group xs (m, js) ! i = (if js = [i] then demote (xs ! i) else xs ! i)"
proof (cases "length js = 1")
  case True
  then obtain j where j: "js = [j]" by (cases js) auto
  show ?thesis
    using assms by (cases "j = i") (simp_all add: j demote_group_def)
next
  case False
  then have "js \<noteq> [i]" by auto
  with False show ?thesis by (simp add: demote_group_def)
qed

lemma foldl_demote_group_length: "length (foldl demote_group xs G) = length xs"
  by (induction G arbitrary: xs) (simp_all add: length_demote_group)

lemma foldl_demote_group_nth:
  "i < length xs \<Longrightarrow>
   foldl demote_group xs G ! i =
     (if \<exists>m. (m, [i]) \<in> set G then demote (xs ! i) else xs ! i)"
proof (induction G arbitrary: xs)
  case Nil
  then show ?case by simp
next
  case (Cons g G)
  obtain m js where g: "g = (m, js)" by (cases g)
  have len: "i < length (demote_group xs g)"
    using Cons.prems by (simp add: length_demote_group)
  have "foldl demote_group xs (g # G) ! i =
          (if \<exists>m. (m, [i]) \<in> set G then demote (demote_group xs g ! i)
           else demote_group xs g ! i)"
    using Cons.IH [OF len] by simp
  also have "\<dots> = (if \<exists>m. (m, [i]) \<in> set (g # G) then demote (xs ! i) else xs ! i)"
    using demote_group_nth [OF Cons.prems, of m js] g by (auto simp: demote_idem)
  finally show ?case .
qed

lemma filter_one_time_payments_map:
  "filter_one_time_payments ts =
   map (\<lambda>t. if flagged t \<and> key_count (merchant_key t) ts = 1 then demote t else t) ts"
proof (rule nth_equalityI)
  show "length (filter_one_time_payments ts) =
        length (map (\<lambda>t. if flagged t \<and> key_count (merchant_key t) ts = 1 then demote t else t) ts)"
    by (simp add: filter_one_time_payments_def foldl_demote_group_length)
next
  fix i assume "i < length (filter_one_time_payments ts)"
  then have i: "i < length ts"
    by (simp add: filter_one_time_payments_def foldl_demote_group_length)
  show "filter_one_time_payments ts ! i =
        map (\<lambda>t. if flagged t \<and> key_count (merchant_key t) ts = 1 then demote t else t) ts ! i"
    using i single_group_iff [of i ts]
    by (simp add: filter_one_time_payments_def foldl_demote_group_nth)
qed

section \<open>What the classifier leaves alone\<close>

lemma core_update_txn: "core (update_txn t v) = core t"
  by (simp add: core_def update_txn_def)

lemma core_demote: "core (demote t) = core t"
  by (simp add: core_def demote_def)

lemma core_apply_classification: "apply_classification c t = Inr t' \<Longrightarrow> core t' = core t"
  by (cases c) (auto simp: core_def)

lemma rule_based_core: "rule_based_classify ts = Inr r \<Longrightarrow> map core r = map core ts"
proof (induction ts arbitrary: r)
  case Nil
  then show ?case by simp
next
  case (Cons t ts)
  then show ?case
    by (auto simp: core_update_txn split: sum.splits)
qed

lemma merge_loop_core: "merge_loop cls i ts = Inr r \<Longrightarrow> map core r = map core ts"
proof (induction ts arbitrary: r i)
  case Nil
  then show ?case by simp
next
  case (Cons t ts)
  from Cons.prems obtain t' r' where r: "r = t' # r'" and rest: "merge_loop cls (Suc i) ts = Inr r'"
    and t': "(\<exists>c. apply_classification c t = Inr t') \<or> (\<exists>v. t' = update_txn t v)"
    by (auto split: sum.splits if_splits)
  from t' have "core t' = core t"
    using core_apply_classification core_update_txn by blast
  with Cons.IH [OF rest] r show ?case by simp
qed

lemma classify_batch_core: "classify_batch loads resp ts = Inr r \<Longrightarrow> map core r = map core ts"
  unfolding classify_batch_def
  by (auto split: if_splits option.splits parsed.splits sum.splits
      dest: rule_based_core merge_loop_core)

lemma concat_batches: "concat (batches xs) = xs"
proof (induction xs rule: batches.induct)
  case (1 xs)
  show ?case
  proof (cases "xs = []")
    case True
    then show ?thesis by (simp add: batches.simps)
  next
    case False
    with 1 show ?thesis
      by (subst batches.simps) simp
  qed
qed

lemma classify_batches_core:
  "classify_batches loads service n bs = Inr r \<Longrightarrow> map core r = map core (concat bs)"
proof (induction bs arbitrary: n r)
  case Nil
  then show ?case by simp
next
  case (Cons b bs)
  from Cons.prems obtain cb r' where "classify_batch loads (service n) b = Inr cb"
    "classify_batches loads service (Suc n) bs = Inr r'" "r = cb @ r'"
    by (auto split: sum.splits)
  then show ?case
    using Cons.IH classify_batch_core by fastforce
qed

lemma classify_stage_core:
  "classify_stage use_ai loads service ts = Inr r \<Longrightarrow> map core r = map core ts"
  unfolding classify_stage_def
  by (auto split: if_splits dest: rule_based_core classify_batches_core simp: concat_batches)

lemma filter_one_time_core: "map core (filter_one_time_payments ts) = map core ts"
  by (simp add: filter_one_time_payments_map core_demote o_def)

lemma cost_group_core: "map core (cost_group fsum ms g) = map core ms"
proof -
  have "\<And>t a b. core (t\<lparr>monthly_cost := a, total_paid := b\<rparr>) = core t"
    by (simp add: core_def)
  then show ?thesis
    by (auto simp: cost_group_def Let_def split: prod.splits list.splits)
qed

lemma foldl_cost_group_core: "map core (foldl (cost_group fsum) ms G) = map core ms"
  by (induction G arbitrary: ms) (simp_all add: cost_group_core)

lemma add_monthly_costs_core: "add_monthly_costs fsum ms = Inr out \<Longrightarrow> map core out = map core ms"
  by (auto simp: add_monthly_costs_def foldl_cost_group_core split: sum.splits)

lemma classify_transactions_stages:
  assumes "classify_transactions fsum use_ai loads service ts = Inr out"
  obtains cl where "classify_stage use_ai loads service ts = Inr cl"
    and "add_monthly_costs fsum (filter flagged (filter_one_time_payments cl)) = Inr out"
  using assms by (auto simp: classify_transactions_def split: sum.splits)


lemma Inr_caseE:
  assumes "case x of Inl e \<Rightarrow> False | Inr r \<Rightarrow> P r"
  obtains r where "x = Inr r" and "P r"
  using assms by (cases x) auto

text \<open>
  Claim C9. The parser's fields of a record (date, description, amount, merchant) leave
  \<^verbatim>\<open>classify_transactions\<close> as they entered it, under either strategy: the fields of the
  returned records are, in order, the fields of a subsequence of the input. Every stage
  keeps them record by record (the lemmas above); the projection to the memberships drops
  records and changes none.
\<close>

theorem classify_transactions_frame:
  assumes "classify_transactions fsum use_ai loads service ts = Inr out"
  shows "subseq (map core out) (map core ts)"
proof -
  from assms obtain cl where cl: "classify_stage use_ai loads service ts = Inr cl"
    and out: "add_monthly_costs fsum (filter flagged (filter_one_time_payments cl)) = Inr out"
    by (rule classify_transactions_stages)
  let ?f = "filter_one_time_payments cl"
  have "map core out = map core (filter flagged ?f)"
    using out by (rule add_monthly_costs_core)
  moreover have "subseq (map core (filter flagged ?f)) (map core ?f)"
    by (simp add: subseq_map)
  moreover have "map core ?f = map core ts"
    using cl by (simp add: filter_one_time_core classify_stage_core)
  ultimately show ?thesis by simp
qed

theorem classify_transactions_frame_witness:
  "case classify_transactions naive_sum False (\<lambda>s. None) (\<lambda>n. None) mixed_rows of
      Inl e \<Rightarrow> False
    | Inr out \<Rightarrow> length out = 3 \<and> subseq (map core out) (map core mixed_rows)"
proof -
  have "case classify_transactions naive_sum False (\<lambda>s. None) (\<lambda>n. None) mixed_rows of
      Inl e \<Rightarrow> False
    | Inr out \<Rightarrow> length out = 3"
    by code_simp
  then obtain out
    where out: "classify_transactions naive_sum False (\<lambda>s. None) (\<lambda>n. None) mixed_rows = Inr out"
    and n: "length out = 3"
    by (rule Inr_caseE)
  from classify_transactions_frame [OF out] out n show ?thesis by simp
qed

section \<open>The memberships that are returned\<close>

lemma uncosted_sel:
  "merchant (uncosted t) = merchant t" "is_membership (uncosted t) = is_membership t"
  "membership_type (uncosted t) = membership_type t" "frequency (uncosted t) = frequency t"
  "category (uncosted t) = category t" "amount (uncosted t) = amount t"
  by (simp_all add: uncosted_def)

lemma uncosted_fields:
  assumes "uncosted t = uncosted u"
  shows "merchant t = merchant u \<and> is_membership t = is_membership u \<and>
   membership_type t = membership_type u \<and> frequency t = frequency u \<and>
   category t = category u \<and> amount t = amount u"
proof -
  have "merchant t = merchant u"
    using arg_cong [OF assms, of merchant] by (simp only: uncosted_sel)
  moreover have "is_membership t = is_membership u"
    using arg_cong [OF assms, of is_membership] by (simp only: uncosted_sel)
  moreover have "membership_type t = membership_type u"
    using arg_cong [OF assms, of membership_type] by (simp only: uncosted_sel)
  moreover have "frequency t = frequency u"
    using arg_cong [OF assms, of frequency] by (simp only: uncosted_sel)
  moreover have "category t = category u"
    using arg_cong [OF assms, of category] by (simp only: uncosted_sel)
  moreover have "amount t = amount u"
    using arg_cong [OF assms, of amount] by (simp only: uncosted_sel)
  ultimately show ?thesis by blast
qed

lemma uncosted_flagged: "uncosted t = uncosted u \<Longrightarrow> flagged t = flagged u"
  using uncosted_fields [of t u] by (simp add: flagged_def)

lemma uncosted_merchant_key: "uncosted t = uncosted u \<Longrightarrow> merchant_key t = merchant_key u"
  using uncosted_fields [of t u] by (simp add: merchant_key_def)

lemma cost_group_uncosted: "map uncosted (cost_group fsum ms g) = map uncosted ms"
proof -
  have "\<And>t a b. uncosted (t\<lparr>monthly_cost := a, total_paid := b\<rparr>) = uncosted t"
    by (simp add: uncosted_def)
  then show ?thesis
    by (auto simp: cost_group_def Let_def split: prod.splits list.splits)
qed

lemma foldl_cost_group_uncosted: "map uncosted (foldl (cost_group fsum) ms G) = map uncosted ms"
  by (induction G arbitrary: ms) (simp_all add: cost_group_uncosted)

lemma add_monthly_costs_uncosted:
  "add_monthly_costs fsum ms = Inr out \<Longrightarrow> map uncosted out = map uncosted ms"
  by (auto simp: add_monthly_costs_def foldl_cost_group_uncosted split: sum.splits)

lemma flagged_demote: "\<not> flagged (demote t)"
  by (simp add: flagged_def demote_def)

lemma flagged_after_filter:
  assumes "t \<in> set (filter flagged (filter_one_time_payments cl))"
  shows "t \<in> set cl \<and> flagged t \<and> key_count (merchant_key t) cl \<noteq> 1"
proof -
  from assms obtain u where u: "u \<in> set cl"
    and t: "t = (if flagged u \<and> key_count (merchant_key u) cl = 1 then demote u else u)"
    and f: "flagged t"
    by (auto simp: filter_one_time_payments_map)
  show ?thesis
  proof (cases "flagged u \<and> key_count (merchant_key u) cl = 1")
    case True
    with t f show ?thesis by (simp add: flagged_demote)
  next
    case False
    with t f u show ?thesis by auto
  qed
qed

lemma classify_transactions_origin:
  assumes "classify_stage use_ai loads service ts = Inr cl"
    and "classify_transactions fsum use_ai loads service ts = Inr out"
    and "t \<in> set out"
  shows "\<exists>u\<in>set cl. flagged u \<and> key_count (merchant_key u) cl \<noteq> 1 \<and> uncosted t = uncosted u"
proof -
  from assms(1,2) have "add_monthly_costs fsum (filter flagged (filter_one_time_payments cl)) = Inr out"
    by (simp add: classify_transactions_def)
  then have "map uncosted out = map uncosted (filter flagged (filter_one_time_payments cl))"
    by (rule add_monthly_costs_uncosted)
  then have "set (map uncosted out) = set (map uncosted (filter flagged (filter_one_time_payments cl)))"
    by (rule arg_cong)
  moreover have "uncosted t \<in> set (map uncosted out)"
    using assms(3) by simp
  ultimately have "uncosted t \<in> set (map uncosted (filter flagged (filter_one_time_payments cl)))"
    by blast
  then obtain u where "u \<in> set (filter flagged (filter_one_time_payments cl))"
    and "uncosted t = uncosted u"
    by (auto simp del: set_filter)
  then show ?thesis
    using flagged_after_filter by blast
qed

lemma classify_single_labels:
  assumes "classify_single t = Inr v" and "v_is_membership v"
  shows "v_membership_type v \<noteq> None \<and> v_frequency v \<noteq> None"
  using assms unfolding classify_single_def classify_single_with_def Let_def
  by (auto split: sum.splits)

lemma update_txn_labels:
  assumes "classify_single t = Inr v" and "flagged (update_txn t v)"
  shows "non_null (membership_type (update_txn t v)) \<and> non_null (frequency (update_txn t v)) \<and>
         non_null (category (update_txn t v))"
proof -
  from assms(2) have "v_is_membership v"
    by (simp add: flagged_def update_txn_def)
  with assms(1) have "v_membership_type v \<noteq> None \<and> v_frequency v \<noteq> None"
    by (rule classify_single_labels)
  then show ?thesis
    by (auto simp: non_null_def update_txn_def opt_str_def)
qed

lemma rule_based_labels:
  "rule_based_classify ts = Inr r \<Longrightarrow> u \<in> set r \<Longrightarrow> flagged u \<Longrightarrow>
   non_null (membership_type u) \<and> non_null (frequency u) \<and> non_null (category u)"
proof (induction ts arbitrary: r)
  case Nil
  then show ?case by simp
next
  case (Cons t ts)
  from Cons.prems(1) obtain v r' where v: "classify_single t = Inr v"
    and r': "rule_based_classify ts = Inr r'" and r: "r = update_txn t v # r'"
    by (auto split: sum.splits)
  from Cons.prems(2) r have "u = update_txn t v \<or> u \<in> set r'" by simp
  then show ?case
  proof
    assume "u = update_txn t v"
    with v Cons.prems(3) show ?thesis using update_txn_labels by blast
  next
    assume "u \<in> set r'"
    with Cons.IH [OF r'] Cons.prems(3) show ?thesis by blast
  qed
qed


text \<open>
  Claim C1, amended. The filter groups the membership-flagged records by the normalised
  merchant (the \<^verbatim>\<open>merchant\<close> field upper-cased and cleaned, \<^verbatim>\<open>Unknown\<close> when nothing is
  left), not by the \<^verbatim>\<open>category\<close> field, and demotes the record of every group of one:
  the filter is the map that demotes exactly the flagged records whose normalised merchant
  no other flagged record has. So under either strategy a normalised merchant with
  exactly one flagged record after classification is the normalised merchant of no
  returned record.
\<close>

theorem one_time_payments_dropped:
  assumes "classify_stage use_ai loads service ts = Inr cl"
    and "classify_transactions fsum use_ai loads service ts = Inr out"
  shows "filter_one_time_payments cl =
           map (\<lambda>t. if flagged t \<and> key_count (merchant_key t) cl = 1 then demote t else t) cl \<and>
         (\<forall>k. key_count k cl = 1 \<longrightarrow> (\<forall>t\<in>set out. merchant_key t \<noteq> k))"
proof -
  have "\<And>k t. key_count k cl = 1 \<Longrightarrow> t \<in> set out \<Longrightarrow> merchant_key t \<noteq> k"
  proof
    fix k t assume k: "key_count k cl = 1" and t: "t \<in> set out" and eq: "merchant_key t = k"
    from classify_transactions_origin [OF assms t] obtain u
      where "key_count (merchant_key u) cl \<noteq> 1" "uncosted t = uncosted u"
      by blast
    with k eq show False
      using uncosted_merchant_key [of t u] by simp
  qed
  then have "\<forall>k. key_count k cl = 1 \<longrightarrow> (\<forall>t\<in>set out. merchant_key t \<noteq> k)"
    by blast
  with filter_one_time_payments_map [of cl] show ?thesis
    by (rule conjI)
qed

theorem one_time_payments_dropped_witness:
  "(case classify_stage False (\<lambda>s. None) (\<lambda>n. None) mixed_rows of
      Inl e \<Rightarrow> False
    | Inr cl \<Rightarrow> key_count ''ADOBE SOFTWARE'' cl = 1 \<and> key_count ''NETFLIX'' cl = 3) \<and>
   (case classify_transactions naive_sum False (\<lambda>s. None) (\<lambda>n. None) mixed_rows of
      Inl e \<Rightarrow> False
    | Inr out \<Rightarrow> length out = 3 \<and> ''ADOBE SOFTWARE'' \<notin> set (map merchant_key out))"
proof -
  have a: "case classify_stage False (\<lambda>s. None) (\<lambda>n. None) mixed_rows of
      Inl e \<Rightarrow> False
    | Inr cl \<Rightarrow> key_count ''ADOBE SOFTWARE'' cl = 1 \<and> key_count ''NETFLIX'' cl = 3"
    by code_simp
  have b: "case classify_transactions naive_sum False (\<lambda>s. None) (\<lambda>n. None) mixed_rows of
      Inl e \<Rightarrow> False
    | Inr out \<Rightarrow> length out = 3"
    by code_simp
  from a obtain cl where cl: "classify_stage False (\<lambda>s. None) (\<lambda>n. None) mixed_rows = Inr cl"
    and k: "key_count ''ADOBE SOFTWARE'' cl = 1 \<and> key_count ''NETFLIX'' cl = 3"
    by (rule Inr_caseE)
  from b obtain out
    where out: "classify_transactions naive_sum False (\<lambda>s. None) (\<lambda>n. None) mixed_rows = Inr out"
    and n: "length out = 3"
    by (rule Inr_caseE)
  from one_time_payments_dropped [OF cl out] k
  have "\<forall>t\<in>set out. merchant_key t \<noteq> ''ADOBE SOFTWARE''"
    by blast
  then have "''ADOBE SOFTWARE'' \<notin> set (map merchant_key out)"
    by auto
  with cl out k n show ?thesis by simp
qed

text \<open>
  Claim C1, as stated, speaks of the category. The category can differ from the
  filter's key: when the clean-up of the merchant leaves nothing, the rule-based category
  is the first word of the description and the filter's key is \<^verbatim>\<open>Unknown\<close>. Two such
  rows have two categories with one flagged record each, share the key, and are both
  returned.
\<close>

theorem category_of_one_survives:
  "(case classify_stage False (\<lambda>s. None) (\<lambda>n. None) numbered_rows of
      Inl e \<Rightarrow> False
    | Inr cl \<Rightarrow> length (filter (\<lambda>t. flagged t \<and> category t = Some (PStr ''12'')) cl) = 1) \<and>
   (case classify_transactions naive_sum False (\<lambda>s. None) (\<lambda>n. None) numbered_rows of
      Inl e \<Rightarrow> False
    | Inr out \<Rightarrow> list_ex (\<lambda>t. category t = Some (PStr ''12'')) out)"
  by code_simp

text \<open>
  Claim C3, amended. Under the rule-based strategy every returned record is flagged and
  has a type, a frequency and a category that are present and not \<^verbatim>\<open>None\<close>.
\<close>

theorem rule_based_labels_present:
  assumes "classify_transactions fsum False loads service ts = Inr out" and "t \<in> set out"
  shows "flagged t \<and> non_null (membership_type t) \<and> non_null (frequency t) \<and>
         non_null (category t)"
proof -
  from assms(1) obtain cl where cl: "classify_stage False loads service ts = Inr cl"
    by (rule classify_transactions_stages)
  from classify_transactions_origin [OF cl assms] obtain u
    where u: "u \<in> set cl" "flagged u" "uncosted t = uncosted u"
    by blast
  from cl have "rule_based_classify ts = Inr cl"
    by (simp add: classify_stage_def)
  then have "non_null (membership_type u) \<and> non_null (frequency u) \<and> non_null (category u)"
    using u(1,2) by (rule rule_based_labels)
  with u(2,3) show ?thesis
    using uncosted_fields [of t u] uncosted_flagged [of t u] by simp
qed

theorem rule_based_labels_present_witness:
  "case classify_transactions naive_sum False (\<lambda>s. None) (\<lambda>n. None) netflix_three of
      Inl e \<Rightarrow> False
    | Inr out \<Rightarrow>
        length out = 3 \<and>
        list_all (\<lambda>t. flagged t \<and> non_null (membership_type t) \<and> non_null (frequency t) \<and>
                       non_null (category t)) out"
proof -
  have "case classify_transactions naive_sum False (\<lambda>s. None) (\<lambda>n. None) netflix_three of
      Inl e \<Rightarrow> False
    | Inr out \<Rightarrow> length out = 3"
    by code_simp
  then obtain out
    where out: "classify_transactions naive_sum False (\<lambda>s. None) (\<lambda>n. None) netflix_three = Inr out"
    and n: "length out = 3"
    by (rule Inr_caseE)
  have "list_all (\<lambda>t. flagged t \<and> non_null (membership_type t) \<and> non_null (frequency t) \<and>
                       non_null (category t)) out"
    unfolding list_all_iff using rule_based_labels_present [OF out] by blast
  with out n show ?thesis by simp
qed

text \<open>
  Claim C3, as stated, covers the model-assisted strategy too. There the merge loop
  stores what the service sent: two records flagged by the service with \<^verbatim>\<open>null\<close> for the
  type and the frequency pass the filter and are returned with both \<^verbatim>\<open>None\<close>.
\<close>

theorem null_labels_returned:
  "case classify_transactions naive_sum True null_labels_loads (\<lambda>n. Some null_labels_response)
          (take 2 netflix_three) of
      Inl e \<Rightarrow> False
    | Inr out \<Rightarrow>
        list_ex (\<lambda>t. flagged t \<and> \<not> non_null (membership_type t) \<and> \<not> non_null (frequency t)) out"
  by code_simp

section \<open>Monthly cost and total per category\<close>

subsection \<open>Every classified record has a category\<close>

lemma rule_based_category:
  "rule_based_classify ts = Inr r \<Longrightarrow> u \<in> set r \<Longrightarrow> category u \<noteq> None"
proof (induction ts arbitrary: r)
  case Nil
  then show ?case by simp
next
  case (Cons t ts)
  from Cons.prems(1) obtain v r' where r': "rule_based_classify ts = Inr r'"
    and r: "r = update_txn t v # r'"
    by (auto split: sum.splits)
  from Cons.prems(2) r have "u = update_txn t v \<or> u \<in> set r'" by simp
  then show ?case
    using Cons.IH [OF r'] by (auto simp: update_txn_def)
qed

lemma apply_classification_category:
  "apply_classification c t = Inr t' \<Longrightarrow> category t' \<noteq> None"
  by (cases c) auto

lemma merge_loop_category:
  "merge_loop cls i ts = Inr r \<Longrightarrow> u \<in> set r \<Longrightarrow> category u \<noteq> None"
proof (induction ts arbitrary: r i)
  case Nil
  then show ?case by simp
next
  case (Cons t ts)
  from Cons.prems(1) obtain t' r' where r: "r = t' # r'"
    and rest: "merge_loop cls (Suc i) ts = Inr r'"
    and t': "(\<exists>c. apply_classification c t = Inr t') \<or> (\<exists>v. t' = update_txn t v)"
    by (auto split: sum.splits if_splits)
  from t' have "category t' \<noteq> None"
    using apply_classification_category by (auto simp: update_txn_def)
  with Cons.IH [OF rest] Cons.prems(2) r show ?case by auto
qed

lemma classify_batch_category:
  "classify_batch loads resp ts = Inr r \<Longrightarrow> u \<in> set r \<Longrightarrow> category u \<noteq> None"
  unfolding classify_batch_def
  by (auto split: if_splits option.splits parsed.splits sum.splits
      dest: rule_based_category merge_loop_category)

lemma classify_batches_category:
  "classify_batches loads service n bs = Inr r \<Longrightarrow> u \<in> set r \<Longrightarrow> category u \<noteq> None"
proof (induction bs arbitrary: n r)
  case Nil
  then show ?case by simp
next
  case (Cons b bs)
  from Cons.prems(1) obtain cb r' where cb: "classify_batch loads (service n) b = Inr cb"
    and r': "classify_batches loads service (Suc n) bs = Inr r'" and r: "r = cb @ r'"
    by (auto split: sum.splits)
  from Cons.prems(2) r have "u \<in> set cb \<or> u \<in> set r'" by simp
  then show ?case
    using classify_batch_category [OF cb] Cons.IH [OF r'] by blast
qed

lemma classify_stage_category:
  "classify_stage use_ai loads service ts = Inr r \<Longrightarrow> u \<in> set r \<Longrightarrow> category u \<noteq> None"
  unfolding classify_stage_def
  by (auto split: if_splits dest: rule_based_category classify_batches_category)

subsection \<open>The cost loop, record by record\<close>

lemma category_get_set_costs: "category_get (set_costs fsum items t) = category_get t"
  by (simp add: set_costs_def category_get_def split: list.splits)

lemma set_costs_Nil: "set_costs fsum [] t = t"
  by (simp add: set_costs_def)

lemma cost_group_map:
  "cost_group fsum ms (k, items) = map (\<lambda>t. if category_get t = Some k then set_costs fsum items t else t) ms"
proof (cases items)
  case Nil
  show ?thesis
    unfolding Nil set_costs_Nil by (simp add: cost_group_def)
next
  case (Cons item0 rest)
  show ?thesis
    unfolding Cons by (simp add: cost_group_def set_costs_def Let_def)
qed

lemma foldl_cost_group_map:
  "distinct (map fst G) \<Longrightarrow> foldl (cost_group fsum) ms G = map (apply_groups fsum G) ms"
proof (induction G arbitrary: ms)
  case Nil
  then show ?case
    by (simp add: apply_groups_def map_idI split: option.splits)
next
  case (Cons g G)
  obtain k items where g: "g = (k, items)" by (cases g)
  from Cons.prems g have k: "map_of G k = None" and d: "distinct (map fst G)"
    by (simp_all add: map_of_eq_None_iff)
  have step: "apply_groups fsum G (if category_get t = Some k then set_costs fsum items t else t)
              = apply_groups fsum (g # G) t" for t
  proof (cases "category_get t = Some k")
    case True
    then show ?thesis
      using k g by (simp add: apply_groups_def category_get_set_costs)
  next
    case False
    then show ?thesis
      using g by (auto simp: apply_groups_def split: option.splits)
  qed
  have "foldl (cost_group fsum) ms (g # G) = map (apply_groups fsum G) (cost_group fsum ms g)"
    using Cons.IH [OF d] by simp
  also have "\<dots> = map (apply_groups fsum (g # G)) ms"
    unfolding g cost_group_map using step g by (simp add: o_def)
  finally show ?case .
qed

lemma category_item_Some:
  assumes "category u \<noteq> None" and "category_item u = Inr p"
  shows "\<exists>k. category_get u = Some k \<and> p = Some (k, item_of u)"
  using assms
  by (auto simp: category_item_def category_get_def item_of_def frequency_of_def
      split: option.splits)

lemma pairs_of_category_item:
  assumes "\<forall>u\<in>set ms. category u \<noteq> None \<and> (\<exists>p. category_item u = Inr p)"
  shows "pairs_of category_item ms = map (\<lambda>u. (the (category_get u), item_of u)) ms"
  using assms
proof (induction ms)
  case Nil
  then show ?case by (simp add: pairs_of_def map_filter_simps)
next
  case (Cons u ms)
  then obtain p where p: "category_item u = Inr p" and c: "category u \<noteq> None"
    by auto
  from category_item_Some [OF c p] obtain k where "category_get u = Some k"
    "p = Some (k, item_of u)" by blast
  moreover have "pairs_of category_item (u # ms) =
     (case category_item u of Inl e \<Rightarrow> [] | Inr None \<Rightarrow> [] | Inr (Some q) \<Rightarrow> [q])
       @ pairs_of category_item ms"
    by (simp add: pairs_of_def map_filter_simps split: sum.splits option.splits)
  ultimately show ?case
    using Cons p by simp
qed

lemma values_of_items:
  assumes "\<forall>u\<in>set ms. \<exists>k. category_get u = Some k"
  shows "values_of k (map (\<lambda>u. (the (category_get u), item_of u)) ms) =
         map item_of (filter (\<lambda>u. category_get u = Some k) ms)"
  using assms
proof (induction ms)
  case Nil
  then show ?case by (simp add: values_of_def)
next
  case (Cons u ms)
  then obtain k' where k': "category_get u = Some k'" by auto
  from Cons have "values_of k (map (\<lambda>u. (the (category_get u), item_of u)) ms) =
         map item_of (filter (\<lambda>u. category_get u = Some k) ms)"
    by simp
  then show ?case
    using k' by (simp add: values_of_def)
qed

lemma map_filter_through:
  assumes "map f xs = map f ys"
    and "\<And>u. P u = P' (f u)" and "\<And>u. g u = g' (f u)"
  shows "map g (filter P xs) = map g (filter P ys)"
proof -
  have "map g (filter P zs) = map g' (filter P' (map f zs))" for zs
    by (induction zs) (simp_all add: assms(2,3))
  then show ?thesis
    using assms(1) by simp
qed

lemma category_get_uncosted: "category_get u = category_get (uncosted u)"
  by (simp add: category_get_def uncosted_def)

lemma item_of_uncosted: "item_of u = item_of (uncosted u)"
  by (simp add: item_of_def frequency_of_def uncosted_def)

lemma group_cost_items:
  "group_cost fsum g =
     (case map item_of g of
        [] \<Rightarrow> None
      | item0 # rest \<Rightarrow>
          Some (round2 (to_monthly (snd item0)
                 (fdiv (fsum (map fst (map item_of g))) (of_nat (length (map item_of g)))))))"
  by (cases g) (simp_all add: group_cost_def item_of_def o_def)

lemma set_costs_fields:
  assumes "items = map item_of g" and "g \<noteq> []"
  shows "monthly_cost (set_costs fsum items t) = group_cost fsum g \<and>
         total_paid (set_costs fsum items t) = Some (fsum (map amount g))"
proof -
  from assms obtain u rest where g: "g = u # rest" by (cases g) auto
  have "map fst (map item_of g) = map amount g"
    by (simp add: item_of_def o_def)
  then show ?thesis
    unfolding group_cost_items assms(1) set_costs_def g
    by (simp add: item_of_def o_def)
qed

lemma add_monthly_costs_record:
  assumes "add_monthly_costs fsum ms = Inr out"
    and "\<forall>u\<in>set ms. category u \<noteq> None"
    and "t \<in> set out"
  shows "monthly_cost t = group_cost fsum (category_group t out) \<and>
         total_paid t = Some (fsum (map amount (category_group t out)))"
proof -
  from assms(1) obtain G where G: "group_loop category_item ms [] = Inr G"
    and out: "out = foldl (cost_group fsum) ms G"
    by (auto simp: add_monthly_costs_def split: sum.splits)
  have ok: "\<forall>u\<in>set ms. category u \<noteq> None \<and> (\<exists>p. category_item u = Inr p)"
    using assms(2) group_loop_no_error [OF G] by blast
  have keys: "\<forall>u\<in>set ms. \<exists>k. category_get u = Some k"
    using ok category_item_Some by blast
  have Gp: "G = group_pairs (map (\<lambda>u. (the (category_get u), item_of u)) ms) []"
    using group_loop_pairs [OF G] pairs_of_category_item [OF ok] by simp
  have dist: "distinct (map fst G)"
    unfolding Gp by (simp add: distinct_group_pairs)
  have out_map: "out = map (apply_groups fsum G) ms"
    unfolding out using dist by (rule foldl_cost_group_map)
  have unc: "map uncosted out = map uncosted ms"
    using assms(1) by (rule add_monthly_costs_uncosted)
  from assms(3) out_map obtain u where u: "u \<in> set ms" and t: "t = apply_groups fsum G u"
    by auto
  from keys u obtain k where k: "category_get u = Some k" by blast
  let ?g = "filter (\<lambda>w. category_get w = Some k) ms"
  have g_ne: "?g \<noteq> []"
    using u k by (auto simp: filter_empty_conv)
  have items: "map_of G k = Some (map item_of ?g)"
    unfolding Gp using g_ne by (simp add: map_of_group_pairs_empty values_of_items [OF keys])
  have t': "t = set_costs fsum (map item_of ?g) u"
    unfolding t apply_groups_def using k items by simp
  have kt: "category_get t = Some k"
    unfolding t' using k by (simp add: category_get_set_costs)
  have same_items: "map item_of (category_group t out) = map item_of ?g"
    unfolding category_group_def kt
    by (rule map_filter_through [OF unc, of _ "\<lambda>w. category_get w = Some k" _ item_of])
       (simp_all add: category_get_uncosted [symmetric] item_of_uncosted [symmetric])
  then have ne: "category_group t out \<noteq> []"
    using g_ne by auto
  from set_costs_fields [OF same_items [symmetric] ne, of _ u] show ?thesis
    unfolding t' .
qed

lemma filtered_category:
  assumes "classify_stage use_ai loads service ts = Inr cl"
  shows "\<forall>u\<in>set (filter flagged (filter_one_time_payments cl)). category u \<noteq> None"
proof
  fix u assume "u \<in> set (filter flagged (filter_one_time_payments cl))"
  then have "u \<in> set cl"
    using flagged_after_filter by blast
  then show "category u \<noteq> None"
    using assms by (rule classify_stage_category [rotated])
qed


lemma group_cost_uniform:
  assumes "g \<noteq> []" and "\<forall>u\<in>set g. frequency_of u = f"
  shows "group_cost fsum g =
           Some (round2 (to_monthly f (fdiv (fsum (map amount g)) (of_nat (length g)))))"
proof -
  from assms(1) obtain u rest where g: "g = u # rest" by (cases g) auto
  with assms(2) have "frequency_of u = f" by simp
  then show ?thesis
    unfolding g group_cost_def by simp
qed

lemma round_half_even_near: "\<bar>q - of_int (round_half_even q)\<bar> \<le> 1 / 2"
proof -
  have "of_int \<lfloor>q\<rfloor> \<le> q" and "q < of_int \<lfloor>q\<rfloor> + 1"
    by linarith+
  then show ?thesis
    unfolding round_half_even_def Let_def by auto
qed

lemma conversions:
  "to_monthly (PStr ''Yearly'') a = fdiv a 12 \<and>
   to_monthly (PStr ''Weekly'') a = fmul a (fl (433 / 100)) \<and>
   to_monthly (PStr ''Quarterly'') a = fdiv a 3 \<and>
   to_monthly (PStr ''Bi-annual'') a = fdiv a 6 \<and>
   to_monthly (PStr ''Monthly'') a = a"
  by (simp add: to_monthly_def)

lemma conversion_examples:
  "round2 (to_monthly (PStr ''Yearly'') 120) = 10 \<and>
   round2 (to_monthly (PStr ''Weekly'') 10) = fl (433 / 10)"
  by code_simp

text \<open>
  When the records of a category differ in frequency, the first one in the list decides:
  the same two payments give 10.83 with the yearly one first and 130 with the monthly one
  first.
\<close>

lemma first_frequency_decides:
  "(case classify_transactions naive_sum False (\<lambda>s. None) (\<lambda>n. None) yearly_first of
      Inl e \<Rightarrow> False
    | Inr out \<Rightarrow>
        map frequency out = [Some (PStr ''Yearly''), Some (PStr ''Monthly'')] \<and>
        map monthly_cost out = [Some (fl (1083 / 100)), Some (fl (1083 / 100))]) \<and>
   (case classify_transactions naive_sum False (\<lambda>s. None) (\<lambda>n. None) monthly_first of
      Inl e \<Rightarrow> False
    | Inr out \<Rightarrow>
        map frequency out = [Some (PStr ''Monthly''), Some (PStr ''Yearly'')] \<and>
        map monthly_cost out = [Some 130, Some 130])"
  by code_simp

text \<open>
  Claim C2. Whenever \<^verbatim>\<open>classify_transactions\<close> returns, under either strategy, every
  returned record carries as \<^verbatim>\<open>monthly_cost\<close> the cost of its group (the returned records
  with an equal category, in their order): the mean of the group's amounts, converted by
  the frequency of the group's first record, which is the group's frequency whenever its
  records agree on one (divided by 12 for Yearly, multiplied by 4.33 for Weekly, divided
  by 3 for Quarterly, by 6 for Bi-annual, unchanged for Monthly), and rounded to two
  decimals: the float nearest to a number of hundredths at most half a hundredth away;
  and as \<^verbatim>\<open>total_paid\<close> the sum of the group's amounts. A Yearly mean of 120 gives 10, a
  Weekly mean of 10 gives 43.3. All of this is float arithmetic: the mean is \<^verbatim>\<open>sum\<close> of
  the amounts divided by their number, and every quotient and product is rounded.
\<close>

theorem monthly_costs_attached:
  assumes "classify_transactions fsum use_ai loads service ts = Inr out" and "t \<in> set out"
  shows "monthly_cost t = group_cost fsum (category_group t out) \<and>
         total_paid t = Some (fsum (map amount (category_group t out))) \<and>
         ((\<forall>u\<in>set (category_group t out). frequency_of u = f) \<longrightarrow>
            monthly_cost t =
              Some (round2 (to_monthly f
                      (fdiv (fsum (map amount (category_group t out)))
                            (of_nat (length (category_group t out))))))) \<and>
         to_monthly (PStr ''Yearly'') a = fdiv a 12 \<and>
         to_monthly (PStr ''Weekly'') a = fmul a (fl (433 / 100)) \<and>
         to_monthly (PStr ''Quarterly'') a = fdiv a 3 \<and>
         to_monthly (PStr ''Bi-annual'') a = fdiv a 6 \<and>
         to_monthly (PStr ''Monthly'') a = a \<and>
         (\<exists>k. round2 a = fl (of_int k / 100) \<and> \<bar>a * 100 - of_int k\<bar> \<le> 1 / 2) \<and>
         round2 (to_monthly (PStr ''Yearly'') 120) = 10 \<and>
         round2 (to_monthly (PStr ''Weekly'') 10) = fl (433 / 10)"
proof -
  from assms(1) obtain cl where cl: "classify_stage use_ai loads service ts = Inr cl"
    and out: "add_monthly_costs fsum (filter flagged (filter_one_time_payments cl)) = Inr out"
    by (rule classify_transactions_stages)
  have rec: "monthly_cost t = group_cost fsum (category_group t out) \<and>
         total_paid t = Some (fsum (map amount (category_group t out)))"
    using out filtered_category [OF cl] assms(2) by (rule add_monthly_costs_record)
  have "t \<in> set (category_group t out)"
    using assms(2) by (simp add: category_group_def)
  then have ne: "category_group t out \<noteq> []"
    by auto
  have uni: "(\<forall>u\<in>set (category_group t out). frequency_of u = f) \<longrightarrow>
            monthly_cost t =
              Some (round2 (to_monthly f
                      (fdiv (fsum (map amount (category_group t out)))
                            (of_nat (length (category_group t out))))))"
    using rec group_cost_uniform [OF ne] by simp
  have rnd: "\<exists>k. round2 a = fl (of_int k / 100) \<and> \<bar>a * 100 - of_int k\<bar> \<le> 1 / 2"
    unfolding round2_def using round_half_even_near [of "a * 100"] by blast
  from rec uni rnd conversions [of a] conversion_examples show ?thesis
    by blast
qed

theorem monthly_costs_attached_witness:
  "(case classify_transactions naive_sum False (\<lambda>s. None) (\<lambda>n. None) cadence_rows of
      Inl e \<Rightarrow> False
    | Inr out \<Rightarrow>
        map frequency out = [Some (PStr ''Yearly''), Some (PStr ''Weekly''),
                             Some (PStr ''Weekly''), Some (PStr ''Yearly'')] \<and>
        map monthly_cost out = [Some 10, Some (fl (433 / 10)), Some (fl (433 / 10)), Some 10] \<and>
        map total_paid out = [Some 240, Some 20, Some 20, Some 240] \<and>
        list_all (\<lambda>t. monthly_cost t = group_cost naive_sum (category_group t out) \<and>
                       total_paid t = Some (naive_sum (map amount (category_group t out)))) out) \<and>
   (case classify_transactions naive_sum False (\<lambda>s. None) (\<lambda>n. None) rounding_rows of
      Inl e \<Rightarrow> False
    | Inr out \<Rightarrow>
        map monthly_cost out = [Some (fl (999 / 100)), Some (fl (65 / 100)), Some (fl (65 / 100)),
                                Some (fl (999 / 100))] \<and>
        map total_paid out = [Some (fl (23988 / 100)), Some (fl (3 / 10) + 1 / 2 ^ 54),
                              Some (fl (3 / 10) + 1 / 2 ^ 54), Some (fl (23988 / 100))] \<and>
        list_all (\<lambda>t. monthly_cost t = group_cost naive_sum (category_group t out) \<and>
                       total_paid t = Some (naive_sum (map amount (category_group t out)))) out) \<and>
   999 / 100 < fl (999 / 100) \<and> fl (433 / 10) < 433 / 10"
proof -
  have "case classify_transactions naive_sum False (\<lambda>s. None) (\<lambda>n. None) cadence_rows of
      Inl e \<Rightarrow> False
    | Inr out \<Rightarrow>
        map frequency out = [Some (PStr ''Yearly''), Some (PStr ''Weekly''),
                             Some (PStr ''Weekly''), Some (PStr ''Yearly'')] \<and>
        map monthly_cost out = [Some 10, Some (fl (433 / 10)), Some (fl (433 / 10)), Some 10] \<and>
        map total_paid out = [Some 240, Some 20, Some 20, Some 240]"
    by code_simp
  then obtain out
    where out: "classify_transactions naive_sum False (\<lambda>s. None) (\<lambda>n. None) cadence_rows = Inr out"
    and v: "map frequency out = [Some (PStr ''Yearly''), Some (PStr ''Weekly''),
                             Some (PStr ''Weekly''), Some (PStr ''Yearly'')] \<and>
        map monthly_cost out = [Some 10, Some (fl (433 / 10)), Some (fl (433 / 10)), Some 10] \<and>
        map total_paid out = [Some 240, Some 20, Some 20, Some 240]"
    by (rule Inr_caseE)
  have "list_all (\<lambda>t. monthly_cost t = group_cost naive_sum (category_group t out) \<and>
                       total_paid t = Some (naive_sum (map amount (category_group t out)))) out"
    unfolding list_all_iff using monthly_costs_attached [OF out] by blast
  with out v have first: "case classify_transactions naive_sum False (\<lambda>s. None) (\<lambda>n. None) cadence_rows of
      Inl e \<Rightarrow> False
    | Inr out \<Rightarrow>
        map frequency out = [Some (PStr ''Yearly''), Some (PStr ''Weekly''),
                             Some (PStr ''Weekly''), Some (PStr ''Yearly'')] \<and>
        map monthly_cost out = [Some 10, Some (fl (433 / 10)), Some (fl (433 / 10)), Some 10] \<and>
        map total_paid out = [Some 240, Some 20, Some 20, Some 240] \<and>
        list_all (\<lambda>t. monthly_cost t = group_cost naive_sum (category_group t out) \<and>
                       total_paid t = Some (naive_sum (map amount (category_group t out)))) out"
    by simp
  have "case classify_transactions naive_sum False (\<lambda>s. None) (\<lambda>n. None) rounding_rows of
      Inl e \<Rightarrow> False
    | Inr out \<Rightarrow>
        map monthly_cost out = [Some (fl (999 / 100)), Some (fl (65 / 100)), Some (fl (65 / 100)),
                                Some (fl (999 / 100))] \<and>
        map total_paid out = [Some (fl (23988 / 100)), Some (fl (3 / 10) + 1 / 2 ^ 54),
                              Some (fl (3 / 10) + 1 / 2 ^ 54), Some (fl (23988 / 100))]"
    by code_simp
  then obtain out'
    where out': "classify_transactions naive_sum False (\<lambda>s. None) (\<lambda>n. None) rounding_rows = Inr out'"
    and v': "map monthly_cost out' = [Some (fl (999 / 100)), Some (fl (65 / 100)), Some (fl (65 / 100)),
                                Some (fl (999 / 100))] \<and>
        map total_paid out' = [Some (fl (23988 / 100)), Some (fl (3 / 10) + 1 / 2 ^ 54),
                              Some (fl (3 / 10) + 1 / 2 ^ 54), Some (fl (23988 / 100))]"
    by (rule Inr_caseE)
  have "list_all (\<lambda>t. monthly_cost t = group_cost naive_sum (category_group t out') \<and>
                       total_paid t = Some (naive_sum (map amount (category_group t out')))) out'"
    unfolding list_all_iff using monthly_costs_attached [OF out'] by blast
  with out' v' have second: "case classify_transactions naive_sum False (\<lambda>s. None) (\<lambda>n. None) rounding_rows of
      Inl e \<Rightarrow> False
    | Inr out \<Rightarrow>
        map monthly_cost out = [Some (fl (999 / 100)), Some (fl (65 / 100)), Some (fl (65 / 100)),
                                Some (fl (999 / 100))] \<and>
        map total_paid out = [Some (fl (23988 / 100)), Some (fl (3 / 10) + 1 / 2 ^ 54),
                              Some (fl (3 / 10) + 1 / 2 ^ 54), Some (fl (23988 / 100))] \<and>
        list_all (\<lambda>t. monthly_cost t = group_cost naive_sum (category_group t out) \<and>
                       total_paid t = Some (naive_sum (map amount (category_group t out)))) out"
    by simp
  have third: "999 / 100 < fl (999 / 100) \<and> fl (433 / 10) < 433 / 10"
    by code_simp
  from first second third show ?thesis
    by blast
qed

section \<open>Frequency analysis\<close>

lemma payment_item_cases:
  "payment_item t =
     (if \<not> flagged t then Inr None
      else case category_key t of
             None \<Rightarrow> Inl TypeError
           | Some k \<Rightarrow> (case date t of None \<Rightarrow> Inl KeyError | Some d \<Rightarrow> Inr (Some (k, d, amount t))))"
  by (simp add: payment_item_def category_key_def)

lemma payment_item_total: "analysable t \<Longrightarrow> \<exists>p. payment_item t = Inr p"
  by (auto simp: payment_item_cases analysable_def)

lemma payment_item_analysable: "payment_item t = Inr p \<Longrightarrow> analysable t"
  by (auto simp: payment_item_cases analysable_def split: if_splits option.splits)

lemma values_of_Cons:
  "values_of k (p # ps) = (if fst p = k then snd p # values_of k ps else values_of k ps)"
  by (simp add: values_of_def)

lemma values_of_payments:
  "\<forall>t\<in>set ts. analysable t \<Longrightarrow> values_of k (pairs_of payment_item ts) = observations k ts"
proof (induction ts)
  case Nil
  then show ?case by (simp add: values_of_def pairs_of_def observations_def map_filter_simps)
next
  case (Cons t ts)
  then have IH: "values_of k (pairs_of payment_item ts) = observations k ts"
    and a: "analysable t" by simp_all
  have p: "pairs_of payment_item (t # ts) =
     (case payment_item t of Inl e \<Rightarrow> [] | Inr None \<Rightarrow> [] | Inr (Some q) \<Rightarrow> [q])
       @ pairs_of payment_item ts"
    by (simp add: pairs_of_def map_filter_simps split: sum.splits option.splits)
  have o: "observations k (t # ts) =
     (if flagged t \<and> category_key t = Some k
      then (case date t of None \<Rightarrow> [] | Some d \<Rightarrow> [(d, amount t)]) else [])
       @ observations k ts"
    by (simp add: observations_def map_filter_simps split: option.splits)
  show ?case
  proof (cases "flagged t")
    case False
    then show ?thesis
      unfolding p o by (simp add: payment_item_cases IH)
  next
    case True
    with a obtain k' d where "category_key t = Some k'" "date t = Some d"
      by (auto simp: analysable_def)
    with True show ?thesis
      unfolding p o by (simp add: payment_item_cases IH values_of_Cons)
  qed
qed

lemma length_intervals: "length (intervals ps) = length ps - 1"
  by (simp add: intervals_def)

lemma analyze_group_frequency:
  "map_option s_frequency (analyze_group fsum ps) =
     (if length ps < 2 then None else Some (cadence (mean_gap (sort_key fst ps))))"
proof (cases "length ps < 2")
  case True
  then show ?thesis by (simp add: analyze_group_def)
next
  case False
  then have "intervals (sort_key fst ps) \<noteq> []"
    using length_intervals [of "sort_key fst ps"] by (auto simp del: length_0_conv simp: length_0_conv [symmetric])
  with False show ?thesis
    by (simp add: analyze_group_def Let_def mean_gap_def)
qed

lemma entries_Nil: "entries fsum [] = []"
  by (simp add: entries_def)

lemma entries_Cons:
  "entries fsum ((k, ps) # G) =
     (case analyze_group fsum ps of None \<Rightarrow> [] | Some st \<Rightarrow> [(k, st)]) @ entries fsum G"
  by (simp add: entries_def)

lemma keys_entries: "set (map fst (entries fsum G)) \<subseteq> set (map fst G)"
proof (induction G)
  case Nil
  then show ?case by (simp add: entries_Nil)
next
  case (Cons g G)
  obtain k ps where g: "g = (k, ps)" by (cases g)
  show ?case
    unfolding g entries_Cons using Cons by (auto split: option.splits)
qed

lemma distinct_entries: "distinct (map fst G) \<Longrightarrow> distinct (map fst (entries fsum G))"
proof (induction G)
  case Nil
  then show ?case by (simp add: entries_Nil)
next
  case (Cons g G)
  obtain k ps where g: "g = (k, ps)" by (cases g)
  from Cons.prems g have "k \<notin> set (map fst G)" and "distinct (map fst G)" by simp_all
  then have "k \<notin> set (map fst (entries fsum G))" and "distinct (map fst (entries fsum G))"
    using keys_entries [of _ G] Cons.IH by auto
  then show ?case
    unfolding g entries_Cons by (simp split: option.splits)
qed

lemma map_of_entries:
  "distinct (map fst G) \<Longrightarrow>
   map_of (entries fsum G) k = (case map_of G k of None \<Rightarrow> None | Some ps \<Rightarrow> analyze_group fsum ps)"
proof (induction G)
  case Nil
  then show ?case by (simp add: entries_Nil)
next
  case (Cons g G)
  obtain k' ps where g: "g = (k', ps)" by (cases g)
  from Cons.prems g have nk: "k' \<notin> set (map fst G)" and d: "distinct (map fst G)" by simp_all
  have IH: "map_of (entries fsum G) k = (case map_of G k of None \<Rightarrow> None | Some ps \<Rightarrow> analyze_group fsum ps)"
    using Cons.IH [OF d] .
  show ?case
  proof (cases "k = k'")
    case False
    then show ?thesis
      unfolding g entries_Cons by (simp add: IH map_add_def split: option.splits)
  next
    case True
    have "map_of (entries fsum G) k' = None"
      using nk keys_entries [of _ G] by (auto simp: map_of_eq_None_iff)
    then show ?thesis
      unfolding g entries_Cons True by (simp add: map_add_def split: option.splits)
  qed
qed

lemma analyze_frequency_entries:
  assumes "analyze_frequency fsum ts = Inr res"
  shows "res = entries fsum (group_pairs (pairs_of payment_item ts) []) \<and> (\<forall>t\<in>set ts. analysable t)"
proof -
  from assms obtain G where G: "group_loop payment_item ts [] = Inr G" and res: "res = entries fsum G"
    by (auto simp: analyze_frequency_def entries_def split: sum.splits)
  have "\<forall>t\<in>set ts. analysable t"
    using group_loop_no_error [OF G] payment_item_analysable by blast
  with group_loop_pairs [OF G] res show ?thesis by simp
qed

lemma cadence_buckets:
  "(25 \<le> a \<and> a \<le> 35 \<longrightarrow> cadence a = ''Monthly'') \<and>
   (85 \<le> a \<and> a \<le> 95 \<longrightarrow> cadence a = ''Quarterly'') \<and>
   (175 \<le> a \<and> a \<le> 185 \<longrightarrow> cadence a = ''Bi-annual'') \<and>
   (360 \<le> a \<and> a \<le> 370 \<longrightarrow> cadence a = ''Yearly'') \<and>
   (7 \<le> a \<and> a \<le> 9 \<longrightarrow> cadence a = ''Weekly'') \<and>
   (\<not> (25 \<le> a \<and> a \<le> 35) \<and> \<not> (85 \<le> a \<and> a \<le> 95) \<and> \<not> (175 \<le> a \<and> a \<le> 185) \<and>
    \<not> (360 \<le> a \<and> a \<le> 370) \<and> \<not> (7 \<le> a \<and> a \<le> 9) \<longrightarrow>
      cadence a = ''Every '' @ show_int (py_int a) @ '' days'')"
  by (simp add: cadence_def)

lemma cadence_examples:
  "cadence 30 = ''Monthly'' \<and> cadence 365 = ''Yearly'' \<and> cadence 8 = ''Weekly'' \<and>
   cadence 40 = ''Every 40 days'' \<and> cadence (122 / 3) = ''Every 40 days''"
  by code_simp


text \<open>
  Claim C4, amended. \<^verbatim>\<open>analyze_frequency\<close> returns (it raises only on a flagged record
  without a date or with an unhashable category) and its result has one entry per key.
  A category with at least two flagged observations is mapped to the cadence of the mean
  day gap between consecutive payments sorted by date; a category with fewer is absent.
  The cadence is the bucket of the inclusive ranges 25-35, 85-95, 175-185, 360-370 and
  7-9 and, outside all of them, the label \<^verbatim>\<open>Every N days\<close> where N is the mean cut to its
  integer part (\<^verbatim>\<open>int\<close>), not rounded.
\<close>

theorem analyze_frequency_cadence:
  "(list_all analysable ts \<longrightarrow> (\<exists>res. analyze_frequency fsum ts = Inr res)) \<and>
   (\<forall>res. analyze_frequency fsum ts = Inr res \<longrightarrow>
      distinct (map fst res) \<and>
      (\<forall>k. map_option s_frequency (map_of res k) =
             (if length (observations k ts) < 2 then None
              else Some (cadence (mean_gap (sort_key fst (observations k ts))))))) \<and>
   (25 \<le> a \<and> a \<le> 35 \<longrightarrow> cadence a = ''Monthly'') \<and>
   (85 \<le> a \<and> a \<le> 95 \<longrightarrow> cadence a = ''Quarterly'') \<and>
   (175 \<le> a \<and> a \<le> 185 \<longrightarrow> cadence a = ''Bi-annual'') \<and>
   (360 \<le> a \<and> a \<le> 370 \<longrightarrow> cadence a = ''Yearly'') \<and>
   (7 \<le> a \<and> a \<le> 9 \<longrightarrow> cadence a = ''Weekly'') \<and>
   (\<not> (25 \<le> a \<and> a \<le> 35) \<and> \<not> (85 \<le> a \<and> a \<le> 95) \<and> \<not> (175 \<le> a \<and> a \<le> 185) \<and>
    \<not> (360 \<le> a \<and> a \<le> 370) \<and> \<not> (7 \<le> a \<and> a \<le> 9) \<longrightarrow>
      cadence a = ''Every '' @ show_int (py_int a) @ '' days'') \<and>
   cadence 30 = ''Monthly'' \<and> cadence 365 = ''Yearly'' \<and> cadence 8 = ''Weekly'' \<and>
   cadence 40 = ''Every 40 days''"
proof -
  have total: "list_all analysable ts \<longrightarrow> (\<exists>res. analyze_frequency fsum ts = Inr res)"
  proof
    assume "list_all analysable ts"
    then have "\<forall>t\<in>set ts. \<exists>p. payment_item t = Inr p"
      using payment_item_total by (auto simp: list_all_iff)
    then obtain G where "group_loop payment_item ts [] = Inr G"
      using group_loop_total by blast
    then show "\<exists>res. analyze_frequency fsum ts = Inr res"
      by (simp add: analyze_frequency_def)
  qed
  have result: "distinct (map fst res) \<and>
      (\<forall>k. map_option s_frequency (map_of res k) =
             (if length (observations k ts) < 2 then None
              else Some (cadence (mean_gap (sort_key fst (observations k ts))))))"
    if res: "analyze_frequency fsum ts = Inr res" for res
  proof -
    let ?G = "group_pairs (pairs_of payment_item ts) []"
    from analyze_frequency_entries [OF res] have r: "res = entries fsum ?G"
      and an: "\<forall>t\<in>set ts. analysable t" by simp_all
    have d: "distinct (map fst ?G)"
      by (simp add: distinct_group_pairs)
    have "map_option s_frequency (map_of res k) =
             (if length (observations k ts) < 2 then None
              else Some (cadence (mean_gap (sort_key fst (observations k ts)))))" for k
    proof (cases "observations k ts = []")
      case True
      then have "map_of ?G k = None"
        by (simp add: map_of_group_pairs_empty values_of_payments [OF an])
      then show ?thesis
        unfolding r map_of_entries [OF d] using True by simp
    next
      case False
      then have "map_of ?G k = Some (observations k ts)"
        by (simp add: map_of_group_pairs_empty values_of_payments [OF an])
      then show ?thesis
        unfolding r map_of_entries [OF d] by (simp add: analyze_group_frequency)
    qed
    then show ?thesis
      unfolding r using d by (simp add: distinct_entries)
  qed
  from result have results: "\<forall>res. analyze_frequency fsum ts = Inr res \<longrightarrow>
      distinct (map fst res) \<and>
      (\<forall>k. map_option s_frequency (map_of res k) =
             (if length (observations k ts) < 2 then None
              else Some (cadence (mean_gap (sort_key fst (observations k ts))))))"
    by blast
  from total results cadence_buckets [of a] cadence_examples show ?thesis
    by blast
qed

theorem analyze_frequency_cadence_witness:
  "case analyze_frequency naive_sum uneven_rows of
     Inl e \<Rightarrow> False
   | Inr res \<Rightarrow>
       map_option s_frequency (map_of res (KStr ''POOL'')) = Some ''Every 40 days'' \<and>
       map_of res (KStr ''ONCE'') = None"
proof -
  have a: "list_all analysable uneven_rows"
    by code_simp
  have pool: "(if length (observations (KStr ''POOL'') uneven_rows) < 2 then None
        else Some (cadence (mean_gap (sort_key fst (observations (KStr ''POOL'') uneven_rows)))))
       = Some ''Every 40 days''"
    by code_simp
  have once: "(if length (observations (KStr ''ONCE'') uneven_rows) < 2 then None
        else Some (cadence (mean_gap (sort_key fst (observations (KStr ''ONCE'') uneven_rows)))))
       = None"
    by code_simp
  note inst = analyze_frequency_cadence [where ts = uneven_rows and fsum = naive_sum and a = 0]
  from inst a obtain res where res: "analyze_frequency naive_sum uneven_rows = Inr res"
    by blast
  from inst res have k: "map_option s_frequency (map_of res k) =
             (if length (observations k uneven_rows) < 2 then None
              else Some (cadence (mean_gap (sort_key fst (observations k uneven_rows)))))" for k
    by blast
  have "map_option s_frequency (map_of res (KStr ''POOL'')) = Some ''Every 40 days''"
    using k [of "KStr ''POOL''"] pool by simp
  moreover have "map_of res (KStr ''ONCE'') = None"
    using k [of "KStr ''ONCE''"] once by simp
  ultimately show ?thesis
    using res by simp
qed

text \<open>
  Claim C4, as stated, labels a mean outside the ranges with the rounded mean. Four
  payments with the gaps 40, 41 and 41 have the mean 40.67: the code's label is
  \<^verbatim>\<open>Every 40 days\<close>, the rounded mean is 41.
\<close>

theorem truncated_not_rounded:
  "case analyze_frequency naive_sum uneven_rows of
     Inl e \<Rightarrow> False
   | Inr res \<Rightarrow>
       map_option s_frequency (map_of res (KStr ''POOL'')) = Some ''Every 40 days'' \<and>
       spec_cadence (mean_gap (sort_key fst (observations (KStr ''POOL'') uneven_rows)))
         = ''Every 41 days'' \<and>
       map_option s_frequency (map_of res (KStr ''POOL'')) \<noteq>
         Some (spec_cadence (mean_gap (sort_key fst (observations (KStr ''POOL'') uneven_rows))))"
  by code_simp

end
